theory Spec2Isabelle
  imports Complex_Main "HOL-Library.Product_Lexorder"
begin

unbundle bit_operations_syntax

section \<open>Python values used by the maze walker\<close>

text \<open>
  Python integers are unbounded and are modelled by \<open>int\<close>; \<open>&\<close> and \<open>|\<close> are the
  two's complement operations \<open>AND\<close> and \<open>OR\<close> on \<open>int\<close>.  A raised exception is
  the left injection of a sum.  Floating point values (\<open>/\<close>, \<open>** 0.5\<close>, \<open>+ 0.5\<close>) are
  modelled by exact reals.
\<close>

datatype error = IndexError | ValueError | ZeroDivisionError | AttributeError

type_synonym coord = "int \<times> int"
type_synonym path = "coord list"

text \<open>\<open>for x in xs: body\<close> over a state, stopping at the first exception.\<close>

primrec for_each :: "'a list \<Rightarrow> ('a \<Rightarrow> 's \<Rightarrow> error + 's) \<Rightarrow> 's \<Rightarrow> error + 's" where
  "for_each [] body s = Inr s"
| "for_each (x # xs) body s =
     (case body x s of Inl e \<Rightarrow> Inl e | Inr s' \<Rightarrow> for_each xs body s')"

text \<open>Sequencing of two steps, the second skipped when the first raises.\<close>

definition bind_err :: "error + 'a \<Rightarrow> ('a \<Rightarrow> error + 'b) \<Rightarrow> error + 'b" where
  "bind_err m f = (case m of Inl e \<Rightarrow> Inl e | Inr x \<Rightarrow> f x)"

text \<open>
  Indexing a sequence of length \<open>n\<close> with a Python integer: an index in
  \<open>[-n, 0)\<close> counts from the end, an index outside \<open>[-n, n)\<close> raises
  \<open>IndexError\<close>.
\<close>

definition py_index :: "nat \<Rightarrow> int \<Rightarrow> error + nat" where
  "py_index n i =
     (if 0 \<le> i \<and> i < int n then Inr (nat i)
      else if - int n \<le> i \<and> i < 0 then Inr (nat (i + int n))
      else Inl IndexError)"

text \<open>
  A two-dimensional array is the list of its rows.  \<open>locate arr (r, c)\<close> resolves
  \<open>arr[r][c]\<close> (and \<open>arr[r, c]\<close>) to a position, \<open>cell_at\<close> reads it and
  \<open>set_cell\<close> stores into it.
\<close>

definition locate :: "'a list list \<Rightarrow> coord \<Rightarrow> error + (nat \<times> nat)" where
  "locate arr rc =
     (case py_index (length arr) (fst rc) of
        Inl e \<Rightarrow> Inl e
      | Inr i \<Rightarrow>
          (case py_index (length (arr ! i)) (snd rc) of
             Inl e \<Rightarrow> Inl e
           | Inr j \<Rightarrow> Inr (i, j)))"

definition cell_at :: "'a list list \<Rightarrow> nat \<times> nat \<Rightarrow> 'a" where
  "cell_at arr pos = arr ! fst pos ! snd pos"

definition set_cell :: "'a list list \<Rightarrow> nat \<times> nat \<Rightarrow> 'a \<Rightarrow> 'a list list" where
  "set_cell arr pos x = arr[fst pos := (arr ! fst pos)[snd pos := x]]"

section \<open>MazeCell.py: the cell\<close>

definition wi_none :: int where [simp]: "wi_none = 0"
definition wi_left :: int where [simp]: "wi_left = 1"
definition wi_top :: int where [simp]: "wi_top = 2"
definition wi_right :: int where [simp]: "wi_right = 4"
definition wi_bottom :: int where [simp]: "wi_bottom = 8"

definition go_nodir :: int where [simp]: "go_nodir = 32"
definition go_left :: int where [simp]: "go_left = 64"
definition go_up :: int where [simp]: "go_up = 128"
definition go_right :: int where [simp]: "go_right = 256"
definition go_down :: int where [simp]: "go_down = 512"
definition go_none :: int where [simp]: "go_none = 0"

definition wi_start :: int where [simp]: "wi_start = 1024"
definition wi_finish :: int where [simp]: "wi_finish = 2048"

text \<open>
  The attributes of a \<open>Cell\<close> that the walker reads or writes.  The pixel sizes and
  the scale only serve the drawing code and are left out.
\<close>

record cell =
  wall_index :: int
  display_index :: int
  visited :: bool
  direction :: int

text \<open>\<open>Cell.__init__\<close> with the default scale.\<close>

definition mzCell :: "int \<Rightarrow> error + cell" where
  "mzCell wi =
     (if wi > 4095 then Inl ValueError
      else Inr \<lparr>wall_index = wi, display_index = wi, visited = False, direction = go_none\<rparr>)"

definition add_wall :: "cell \<Rightarrow> int \<Rightarrow> error + cell" where
  "add_wall self wi =
     (if wi > 16 then Inl ValueError
      else Inr (self\<lparr>wall_index := wall_index self OR wi\<rparr>))"

text \<open>
  \<open>set_direction\<close>: an invalid direction makes the method return (not raise) a
  \<open>ValueError\<close> object, leaving the cell as it is.
\<close>

definition clear_flag :: "int \<Rightarrow> int \<Rightarrow> int" where
  "clear_flag di flag = (if di AND flag \<noteq> 0 then di - flag else di)"

definition set_direction :: "cell \<Rightarrow> int \<Rightarrow> cell" where
  "set_direction self d =
     (if d \<notin> set [go_none, go_nodir, go_left, go_up, go_right, go_down] then self
      else self\<lparr>display_index :=
             clear_flag (clear_flag (clear_flag (clear_flag (clear_flag
               (display_index self) go_nodir) go_left) go_up) go_right) go_down + d\<rparr>)"

text \<open>
  \<open>clear_navigation\<close> evaluates \<open>self.go.none\<close> first; \<open>Cell\<close> has no attribute
  \<open>go\<close>, so a call raises \<open>AttributeError\<close> before anything is reset.
\<close>

definition clear_navigation :: "cell \<Rightarrow> error + cell" where
  "clear_navigation self = Inl AttributeError"

definition set_as_start :: "cell \<Rightarrow> cell" where
  "set_as_start self =
     (if display_index self AND wi_start = 0
      then self\<lparr>display_index := clear_flag (display_index self) wi_finish + wi_start\<rparr>
      else self)"

definition set_as_finish :: "cell \<Rightarrow> bool \<Rightarrow> cell" where
  "set_as_finish self show_dot =
     (let self1 =
        (if display_index self AND wi_finish = 0
         then self\<lparr>display_index := clear_flag (display_index self) wi_start + wi_finish\<rparr>
         else self)
      in if show_dot then set_direction self1 go_nodir else set_direction self1 go_none)"

type_synonym maze = "cell list list"

section \<open>MazeWalker.py: read_maze_file\<close>

text \<open>\<open>int(x)\<close> of a float: truncation towards zero.\<close>

definition py_int :: "real \<Rightarrow> int" where
  "py_int x = (if 0 \<le> x then \<lfloor>x\<rfloor> else \<lceil>x\<rceil>)"

text \<open>\<open>a / b\<close> on integers: true division, raising when \<open>b\<close> is zero.\<close>

definition true_div :: "int \<Rightarrow> int \<Rightarrow> error + real" where
  "true_div a b = (if b = 0 then Inl ZeroDivisionError else Inr (real_of_int a / real_of_int b))"

text \<open>\<open>a // b\<close> for a non-negative \<open>a\<close> and \<open>b\<close>.\<close>

definition floor_div :: "nat \<Rightarrow> nat \<Rightarrow> error + nat" where
  "floor_div a b = (if b = 0 then Inl ZeroDivisionError else Inr (a div b))"

text \<open>\<open>listAvg = lambda lst: int(sum(lst)/len(lst))\<close>\<close>

definition listAvg :: "int list \<Rightarrow> error + int" where
  "listAvg lst =
     bind_err (true_div (sum_list lst) (int (length lst))) (\<lambda>q. Inr (py_int q))"

text \<open>
  The boundary index of a run of wall pixels.  A run closed by a white pixel uses
  \<open>int(listAvg(scan_index) / cell_width + 0.5)\<close>; a run still open when the scan
  line ends uses \<open>int(listAvg(scan_index) / cell_width)\<close>.
\<close>

definition cindex_closed :: "int list \<Rightarrow> nat \<Rightarrow> error + int" where
  "cindex_closed scan_index cell_size =
     bind_err (listAvg scan_index) (\<lambda>avg.
     bind_err (true_div avg (int cell_size)) (\<lambda>q. Inr (py_int (q + 1 / 2))))"

definition cindex_open :: "int list \<Rightarrow> nat \<Rightarrow> error + int" where
  "cindex_open scan_index cell_size =
     bind_err (listAvg scan_index) (\<lambda>avg.
     bind_err (true_div avg (int cell_size)) (\<lambda>q. Inr (py_int q)))"

type_synonym grid = "int list list"

text \<open>\<open>Grid[r][c] = v\<close> and \<open>Grid[r][c] += v\<close>\<close>

definition grid_assign :: "grid \<Rightarrow> coord \<Rightarrow> int \<Rightarrow> error + grid" where
  "grid_assign Grid rc v = bind_err (locate Grid rc) (\<lambda>pos. Inr (set_cell Grid pos v))"

definition grid_add :: "grid \<Rightarrow> coord \<Rightarrow> int \<Rightarrow> error + grid" where
  "grid_add Grid rc v =
     bind_err (locate Grid rc) (\<lambda>pos. Inr (set_cell Grid pos (cell_at Grid pos + v)))"

text \<open>\<open>img.item(r, c)\<close>\<close>

definition item :: "int list list \<Rightarrow> coord \<Rightarrow> error + int" where
  "item img rc = bind_err (locate img rc) (\<lambda>pos. Inr (cell_at img pos))"

text \<open>Recording a vertical wall found on the scan line of maze row \<open>rows\<close>.\<close>

definition place_vertical :: "grid \<Rightarrow> nat \<Rightarrow> int \<Rightarrow> error + grid" where
  "place_vertical Grid rows cindex =
     (if cindex = 0 then grid_assign Grid (int rows, 0) 1
      else grid_add Grid (int rows, cindex - 1) 4)"

text \<open>Recording a horizontal wall found on the scan line of maze column \<open>cols\<close>.\<close>

definition place_horizontal :: "grid \<Rightarrow> nat \<Rightarrow> int \<Rightarrow> error + grid" where
  "place_horizontal Grid cols cindex =
     (if cindex = 0 then grid_add Grid (0, int cols) 2
      else grid_add Grid (cindex - 1, int cols) 8)"

text \<open>The loop state: the open run \<open>scan_index\<close> and the grid.\<close>

type_synonym scan_state = "int list \<times> grid"

definition scan_row_pixel ::
  "int list list \<Rightarrow> nat \<Rightarrow> nat \<Rightarrow> nat \<Rightarrow> nat \<Rightarrow> scan_state \<Rightarrow> error + scan_state" where
  "scan_row_pixel img cell_width row_centre rows scan st =
     bind_err (item img (int row_centre, int scan)) (\<lambda>px.
       if px = 0 then Inr (fst st @ [int scan], snd st)
       else if fst st \<noteq> [] then
         bind_err (cindex_closed (fst st) cell_width) (\<lambda>cindex.
         bind_err (place_vertical (snd st) rows cindex) (\<lambda>Grid. Inr ([], Grid)))
       else Inr st)"

definition scan_row ::
  "int list list \<Rightarrow> nat \<Rightarrow> nat \<Rightarrow> nat \<Rightarrow> nat \<Rightarrow> scan_state \<Rightarrow> error + scan_state" where
  "scan_row img num_cols cell_width cell_height rows st =
     (let row_centre = cell_height div 2 + cell_height * rows in
      bind_err (for_each [0 ..< num_cols] (scan_row_pixel img cell_width row_centre rows) st)
        (\<lambda>st1.
          if fst st1 \<noteq> [] then
            bind_err (cindex_open (fst st1) cell_width) (\<lambda>cindex.
            bind_err (place_vertical (snd st1) rows cindex) (\<lambda>Grid. Inr ([], Grid)))
          else Inr st1))"

definition scan_col_pixel ::
  "int list list \<Rightarrow> nat \<Rightarrow> nat \<Rightarrow> nat \<Rightarrow> nat \<Rightarrow> scan_state \<Rightarrow> error + scan_state" where
  "scan_col_pixel img cell_height col_centre cols scan st =
     bind_err (item img (int scan, int col_centre)) (\<lambda>px.
       if px = 0 then Inr (fst st @ [int scan], snd st)
       else if fst st \<noteq> [] then
         bind_err (cindex_closed (fst st) cell_height) (\<lambda>cindex.
         bind_err (place_horizontal (snd st) cols cindex) (\<lambda>Grid. Inr ([], Grid)))
       else Inr st)"

definition scan_col ::
  "int list list \<Rightarrow> nat \<Rightarrow> nat \<Rightarrow> nat \<Rightarrow> nat \<Rightarrow> nat \<Rightarrow> scan_state \<Rightarrow> error + scan_state" where
  "scan_col img num_rows cell_width cell_height height cols st =
     (let col_centre = cell_width div 2 + cell_width * cols in
      bind_err (for_each [0 ..< num_rows] (scan_col_pixel img cell_height col_centre cols)
                  ([], snd st))
        (\<lambda>st1.
          if fst st1 \<noteq> [] then
            bind_err (cindex_open (fst st1) cell_height) (\<lambda>cindex.
              if cindex = 0 then
                bind_err (grid_add (snd st1) (0, int cols) 2) (\<lambda>Grid. Inr ([], Grid))
              else
                (let cindex1 = (if cols = 0 \<and> cindex < int height - 1 then cindex + 1 else cindex)
                 in bind_err (grid_add (snd st1) (cindex1 - 1, int cols) 8)
                      (\<lambda>Grid. Inr ([], Grid))))
          else Inr st1))"

text \<open>
  The image is the list of its pixel rows; \<open>width\<close> and \<open>height\<close> are the maze's
  size in cells.
\<close>

definition read_maze_file :: "int list list \<Rightarrow> nat \<Rightarrow> nat \<Rightarrow> error + grid" where
  "read_maze_file img width height =
     (let Grid = replicate height (replicate width 0);
          num_rows = length img;
          num_cols = (if img = [] then 0 else length (hd img))
      in bind_err (floor_div num_cols width) (\<lambda>cell_width.
         bind_err (floor_div num_rows height) (\<lambda>cell_height.
         bind_err (for_each [0 ..< height] (scan_row img num_cols cell_width cell_height)
                     ([], Grid)) (\<lambda>st1.
         bind_err (for_each [0 ..< width] (scan_col img num_rows cell_width cell_height height)
                     st1) (\<lambda>st2. Inr (snd st2))))))"

section \<open>MazeWalker.py: create_maze\<close>

text \<open>A loop that builds one result per element, stopping at the first exception.\<close>

primrec map_err :: "('a \<Rightarrow> error + 'b) \<Rightarrow> 'a list \<Rightarrow> error + 'b list" where
  "map_err f [] = Inr []"
| "map_err f (x # xs) =
     (case f x of
        Inl e \<Rightarrow> Inl e
      | Inr y \<Rightarrow> (case map_err f xs of Inl e \<Rightarrow> Inl e | Inr ys \<Rightarrow> Inr (y # ys)))"

text \<open>\<open>Maze[r][c].wall_index()\<close> and \<open>Maze[r][c].add_wall(wi)\<close>\<close>

definition wall_at :: "maze \<Rightarrow> coord \<Rightarrow> error + int" where
  "wall_at Maze rc = bind_err (locate Maze rc) (\<lambda>pos. Inr (wall_index (cell_at Maze pos)))"

definition add_wall_at :: "maze \<Rightarrow> coord \<Rightarrow> int \<Rightarrow> error + maze" where
  "add_wall_at Maze rc wi =
     bind_err (locate Maze rc) (\<lambda>pos.
     bind_err (add_wall (cell_at Maze pos) wi) (\<lambda>c. Inr (set_cell Maze pos c)))"

text \<open>
  The body of the second pair of loops: a bottom wall of the cell above becomes a
  top wall of this cell, a right wall of the cell to the left becomes a left wall.
\<close>

definition propagate :: "nat \<Rightarrow> nat \<Rightarrow> maze \<Rightarrow> error + maze" where
  "propagate row col Maze =
     bind_err
       (if row > 0 then
          bind_err (wall_at Maze (int row - 1, int col)) (\<lambda>above_wall.
            if above_wall AND wi_bottom \<noteq> 0 then add_wall_at Maze (int row, int col) wi_top
            else Inr Maze)
        else Inr Maze)
       (\<lambda>Maze1.
          if col > 0 then
            bind_err (wall_at Maze1 (int row, int col - 1)) (\<lambda>left_wall.
              if left_wall AND wi_right \<noteq> 0 then add_wall_at Maze1 (int row, int col) wi_left
              else Inr Maze1)
          else Inr Maze1)"

text \<open>\<open>if not Maze[r][c].wall_index() & wi: Maze[r][c].add_wall(wi)\<close>\<close>

definition seal :: "coord \<Rightarrow> int \<Rightarrow> maze \<Rightarrow> error + maze" where
  "seal rc wi Maze =
     bind_err (wall_at Maze rc) (\<lambda>w.
       if w AND wi = 0 then add_wall_at Maze rc wi else Inr Maze)"

definition seal_col :: "nat \<Rightarrow> nat \<Rightarrow> maze \<Rightarrow> error + maze" where
  "seal_col maze_height col Maze =
     bind_err (seal (0, int col) wi_top Maze)
       (seal (int maze_height - 1, int col) wi_bottom)"

definition seal_row :: "nat \<Rightarrow> nat \<Rightarrow> maze \<Rightarrow> error + maze" where
  "seal_row maze_width row Maze =
     bind_err (seal (int row, 0) wi_left Maze)
       (seal (int row, int maze_width - 1) wi_right)"

text \<open>
  The grid is the list of its rows, all of one length; \<open>grid.shape\<close> is the number
  of rows and the length of a row.
\<close>

definition create_maze :: "grid \<Rightarrow> error + maze" where
  "create_maze grid =
     (let maze_height = length grid;
          maze_width = (if grid = [] then 0 else length (hd grid))
      in bind_err (map_err (map_err mzCell) grid) (\<lambda>Maze0.
         bind_err (for_each [0 ..< maze_height]
                     (\<lambda>row. for_each [0 ..< maze_width] (propagate row)) Maze0) (\<lambda>Maze1.
         bind_err (for_each [0 ..< maze_width] (seal_col maze_height) Maze1) (\<lambda>Maze2.
         for_each [0 ..< maze_height] (seal_row maze_width) Maze2))))"

definition process_maze :: "int list list \<Rightarrow> nat \<Rightarrow> nat \<Rightarrow> error + maze" where
  "process_maze img width height = bind_err (read_maze_file img width height) create_maze"

section \<open>MazeWalker.py: navigate_maze\<close>

definition sentinel :: coord where
  "sentinel = (- 1, - 1)"

text \<open>
  The search mutates the cells and appends to the list \<open>all_paths\<close>; both are the
  state that a call takes and gives back, also when it raises.  The result is the
  returned path or the exception.
\<close>

type_synonym nav_state = "maze \<times> path list"
type_synonym nav_result = "(error + path) \<times> nav_state"

text \<open>Running the next statement on the path and state a previous one left.\<close>

definition and_then ::
  "nav_result option \<Rightarrow> (path \<Rightarrow> nav_state \<Rightarrow> nav_result option) \<Rightarrow> nav_result option" where
  "and_then r f =
     (case r of
        None \<Rightarrow> None
      | Some (Inl e, st) \<Rightarrow> Some (Inl e, st)
      | Some (Inr p, st) \<Rightarrow> f p st)"

text \<open>
  One of the four attempts
  \<open>if not maze[row][col].wall_index() & wall and _maze_path[0] != (-1, -1)\<close>:
  set the direction and recurse into \<open>next_cell\<close>.  \<open>pos\<close> is the position of
  \<open>maze[row][col]\<close>.
\<close>

definition try_move ::
  "(coord \<Rightarrow> coord \<Rightarrow> path \<Rightarrow> nav_state \<Rightarrow> nav_result option) \<Rightarrow>
   nat \<times> nat \<Rightarrow> int \<Rightarrow> int \<Rightarrow> coord \<Rightarrow> coord \<Rightarrow> path \<Rightarrow> nav_state \<Rightarrow> nav_result option" where
  "try_move recurse pos wall go next_cell to_cell p st =
     (if wall_index (cell_at (fst st) pos) AND wall \<noteq> 0 then Some (Inr p, st)
      else case p of
        [] \<Rightarrow> Some (Inl IndexError, st)
      | p0 # _ \<Rightarrow>
          if p0 = sentinel then Some (Inr p, st)
          else recurse next_cell to_cell p
                 (set_cell (fst st) pos ((cell_at (fst st) pos)\<lparr>direction := go\<rparr>), snd st))"

text \<open>The last block: a cell from which no direction led to the goal is a dead end.\<close>

definition record_dead_end :: "path \<Rightarrow> nav_state \<Rightarrow> nav_result option" where
  "record_dead_end p st =
     (case p of
        [] \<Rightarrow> Some (Inl IndexError, st)
      | p0 # _ \<Rightarrow>
          if p0 \<noteq> sentinel then Some (Inr (butlast p), (fst st, snd st @ [p]))
          else Some (Inr p, st))"

text \<open>The body of \<open>navigate_maze\<close>, with \<open>recurse\<close> for its recursive calls.\<close>

definition navigate_body ::
  "(coord \<Rightarrow> coord \<Rightarrow> path \<Rightarrow> nav_state \<Rightarrow> nav_result option) \<Rightarrow>
   coord \<Rightarrow> coord \<Rightarrow> path \<Rightarrow> nav_state \<Rightarrow> nav_result option" where
  "navigate_body recurse from_cell to_cell maze_path st =
     (let row = fst from_cell; col = snd from_cell in
      if from_cell = to_cell then Some (Inr (sentinel # maze_path @ [from_cell]), st)
      else case locate (fst st) from_cell of
        Inl e \<Rightarrow> Some (Inl e, st)
      | Inr pos \<Rightarrow>
          if visited (cell_at (fst st) pos) then Some (Inr maze_path, st)
          else
            (case maze_path of
               [] \<Rightarrow> Some (Inl IndexError, st)
             | p0 # _ \<Rightarrow>
                 if p0 = sentinel then Some (Inr maze_path, st)
                 else
                   and_then (and_then (and_then (and_then
                     (try_move recurse pos wi_left go_left (row, col - 1) to_cell
                        (maze_path @ [from_cell])
                        (set_cell (fst st) pos ((cell_at (fst st) pos)\<lparr>visited := True\<rparr>),
                         snd st))
                     (try_move recurse pos wi_top go_up (row - 1, col) to_cell))
                     (try_move recurse pos wi_right go_right (row, col + 1) to_cell))
                     (try_move recurse pos wi_bottom go_down (row + 1, col) to_cell))
                     record_dead_end))"

text \<open>
  \<open>navigate_maze\<close> with a bound on the depth of the recursion: \<open>None\<close> when the
  bound is reached before the search returns.
\<close>

primrec navigate_maze ::
  "nat \<Rightarrow> coord \<Rightarrow> coord \<Rightarrow> path \<Rightarrow> nav_state \<Rightarrow> nav_result option" where
  "navigate_maze 0 = (\<lambda>from_cell to_cell maze_path st. None)"
| "navigate_maze (Suc fuel) = navigate_body (navigate_maze fuel)"

section \<open>MazeWalker.py: find_paths\<close>

text \<open>
  \<open>for row in maze: for cell in row: cell.clear_navigation\<close>: the body names the
  method and does not call it, so every cell stays as it is.
\<close>

definition clear_loop :: "maze \<Rightarrow> maze" where
  "clear_loop maze = map (map (\<lambda>cell. cell)) maze"

text \<open>
  What \<open>find_paths\<close> returns: the solution path and an empty list, or the dead
  ends of both searches.
\<close>

datatype found = Solution path | DeadEnds "path list" "path list"

text \<open>The search from the start cell (the first call of \<open>navigate_maze\<close>).\<close>

definition forward_search :: "nat \<Rightarrow> maze \<Rightarrow> coord \<Rightarrow> coord \<Rightarrow> nav_result option" where
  "forward_search fuel maze start_cell finish_cell =
     navigate_maze fuel start_cell finish_cell [start_cell] (clear_loop maze, [])"

text \<open>
  The search from the finish cell (the second call), on the cells as the second
  clearing loop leaves them.
\<close>

definition reverse_search :: "nat \<Rightarrow> maze \<Rightarrow> coord \<Rightarrow> coord \<Rightarrow> nav_result option" where
  "reverse_search fuel maze1 start_cell finish_cell =
     navigate_maze fuel finish_cell start_cell [finish_cell] (clear_loop maze1, [])"

definition find_paths ::
  "nat \<Rightarrow> maze \<Rightarrow> coord \<Rightarrow> coord \<Rightarrow> ((error + found) \<times> maze) option" where
  "find_paths fuel maze start_cell finish_cell =
     (case forward_search fuel maze start_cell finish_cell of
        None \<Rightarrow> None
      | Some (Inl e, st1) \<Rightarrow> Some (Inl e, fst st1)
      | Some (Inr maze_path, st1) \<Rightarrow>
          if length maze_path > 1 then Some (Inr (Solution maze_path), fst st1)
          else
            (case reverse_search fuel (fst st1) start_cell finish_cell of
               None \<Rightarrow> None
             | Some (Inl e, st2) \<Rightarrow> Some (Inl e, fst st2)
             | Some (Inr maze_path2, st2) \<Rightarrow>
                 Some (Inr (DeadEnds (snd st1) (snd st2)), fst st2)))"

section \<open>MazeWalker.py: find_suggestions\<close>

text \<open>\<open>calc_distance\<close>: \<open>((t1[0] - t2[0]) ** 2 + (t1[1] - t2[1]) ** 2) ** 0.5\<close>.\<close>

definition calc_distance :: "coord \<Rightarrow> coord \<Rightarrow> real" where
  "calc_distance t1 t2 =
     sqrt (real_of_int ((fst t1 - fst t2)\<^sup>2 + (snd t1 - snd t2)\<^sup>2))"

definition pairs :: "path \<Rightarrow> path \<Rightarrow> (coord \<times> coord) list" where
  "pairs fStart fFinish = concat (map (\<lambda>i. map (\<lambda>j. (i, j)) fFinish) fStart)"

definition distances :: "path \<Rightarrow> path \<Rightarrow> real list" where
  "distances fStart fFinish =
     concat (map (\<lambda>i. map (\<lambda>j. calc_distance i j) fFinish) fStart)"

text \<open>\<open>[pairs[i] for i in range(len(distances)) if distances[i] == 1.0]\<close>\<close>

definition candidates :: "path \<Rightarrow> path \<Rightarrow> (coord \<times> coord) list" where
  "candidates fStart fFinish =
     map (\<lambda>i. pairs fStart fFinish ! i)
       (filter (\<lambda>i. distances fStart fFinish ! i = 1)
          [0 ..< length (distances fStart fFinish)])"

text \<open>
  The \<open>if\<close>/\<open>elif\<close> chain on \<open>row_shift\<close> and \<open>col_shift\<close>; its \<open>else\<close> raises
  \<open>ValueError\<close>.
\<close>

definition wall_to_remove :: "coord \<times> coord \<Rightarrow> error + int" where
  "wall_to_remove c =
     (let row_shift = fst (fst c) - fst (snd c);
          col_shift = snd (fst c) - snd (snd c)
      in if row_shift = - 1 then Inr wi_bottom
         else if row_shift = 1 then Inr wi_top
         else if col_shift = - 1 then Inr wi_right
         else if col_shift = 1 then Inr wi_left
         else Inl ValueError)"

type_synonym suggestion = "int \<times> int \<times> int"

definition add_candidate :: "coord \<times> coord \<Rightarrow> suggestion list \<Rightarrow> error + suggestion list" where
  "add_candidate c coordinates =
     (case wall_to_remove c of
        Inl e \<Rightarrow> Inl e
      | Inr wall \<Rightarrow> Inr (coordinates @ [(fst (fst c), snd (fst c), wall)]))"

text \<open>The three nested loops that fill \<open>coordinates\<close>.\<close>

definition collect_coordinates :: "path list \<Rightarrow> path list \<Rightarrow> error + suggestion list" where
  "collect_coordinates from_start from_finish =
     for_each from_start
       (\<lambda>fStart. for_each from_finish
          (\<lambda>fFinish. for_each (candidates fStart fFinish) add_candidate)) []"

text \<open>
  \<open>coordinates = list(set(coordinates))\<close> followed by the expression statement
  \<open>coordinates.sort\<close>, which names the method and does not call it.  The order in
  which a set is enumerated is not fixed by the language and is the parameter
  \<open>enum\<close>.  The human-readable \<open>suggestions\<close> strings are not modelled.
\<close>

definition set_enumeration :: "(suggestion list \<Rightarrow> suggestion list) \<Rightarrow> bool" where
  "set_enumeration enum = (\<forall>xs. distinct (enum xs) \<and> set (enum xs) = set xs)"

definition find_suggestions ::
  "(suggestion list \<Rightarrow> suggestion list) \<Rightarrow> path list \<Rightarrow> path list \<Rightarrow> error + suggestion list" where
  "find_suggestions enum from_start from_finish =
     (case collect_coordinates from_start from_finish of
        Inl e \<Rightarrow> Inl e
      | Inr coordinates \<Rightarrow> Inr (enum coordinates))"


section \<open>MazeWalker.py: solve_maze\<close>

text \<open>\<open>Maze[rc].method()\<close> for a method that updates the cell.\<close>

definition apply_at :: "maze \<Rightarrow> coord \<Rightarrow> (cell \<Rightarrow> cell) \<Rightarrow> error + maze" where
  "apply_at Maze rc f =
     bind_err (locate Maze rc) (\<lambda>pos. Inr (set_cell Maze pos (f (cell_at Maze pos))))"

text \<open>\<open>Maze[row, col].set_direction(Maze[row, col].direction)\<close>\<close>

definition show_direction :: "coord \<Rightarrow> maze \<Rightarrow> error + maze" where
  "show_direction rc Maze = apply_at Maze rc (\<lambda>c. set_direction c (direction c))"

text \<open>
  \<open>solve_maze\<close> returns images and a flag.  The model returns what they are drawn
  from: the path without its flag when the maze is solved, the coordinates of the
  walls to circle when it is not, and the cells.  The drawing functions only read
  the cells and are not modelled.

  When \<open>find_paths\<close> returns a path whose first element is not the flag, the
  \<open>else\<close> branch runs \<open>find_suggestions\<close> on it with an empty \<open>from_finish\<close>, whose
  inner loop has nothing to iterate over.
\<close>

datatype outcome = Solved path | Unsolved "suggestion list"

definition solve_maze ::
  "(suggestion list \<Rightarrow> suggestion list) \<Rightarrow> nat \<Rightarrow> maze \<Rightarrow> coord \<Rightarrow> coord \<Rightarrow>
   (error + outcome \<times> maze) option" where
  "solve_maze enum fuel Maze start_cell finish_cell =
     (case apply_at Maze start_cell set_as_start of
        Inl e \<Rightarrow> Some (Inl e)
      | Inr Maze1 \<Rightarrow>
     (case apply_at Maze1 finish_cell (\<lambda>c. set_as_finish c False) of
        Inl e \<Rightarrow> Some (Inl e)
      | Inr Maze2 \<Rightarrow>
     (case find_paths fuel Maze2 start_cell finish_cell of
        None \<Rightarrow> None
      | Some (Inl e, Maze3) \<Rightarrow> Some (Inl e)
      | Some (Inr (Solution from_start), Maze3) \<Rightarrow>
          (case from_start of
             [] \<Rightarrow> Some (Inl IndexError)
           | p0 # rest \<Rightarrow>
               if p0 = sentinel then
                 Some (bind_err (for_each rest show_direction Maze3) (\<lambda>Maze4.
                       bind_err (apply_at Maze4 finish_cell (\<lambda>c. set_as_finish c True))
                         (\<lambda>Maze5. Inr (Solved rest, Maze5))))
               else Some (Inr (Unsolved (enum []), Maze3)))
      | Some (Inr (DeadEnds from_start from_finish), Maze3) \<Rightarrow>
          (case from_start of
             [] \<Rightarrow> Some (Inl IndexError)
           | fStart # _ \<Rightarrow>
               Some (bind_err (find_suggestions enum from_start from_finish)
                       (\<lambda>coordinates. Inr (Unsolved coordinates, Maze3)))))))"

section \<open>CLProcessor.py: the checks on the start and finish cells\<close>

text \<open>\<open>x in range(n)\<close>\<close>

definition in_range :: "int \<Rightarrow> int \<Rightarrow> bool" where
  "in_range x n = (0 \<le> x \<and> x < n)"

text \<open>
  \<open>__check_inputs\<close> on the parsed width, height, start and finish cell; the named
  file is taken to exist.
\<close>

definition check_inputs :: "int \<Rightarrow> int \<Rightarrow> coord \<Rightarrow> coord \<Rightarrow> error + unit" where
  "check_inputs width height start_cell finish_cell =
     (if width < 1 then Inl ValueError
      else if height < 1 then Inl ValueError
      else if \<not> in_range (fst start_cell) width then Inl ValueError
      else if \<not> in_range (fst finish_cell) width then Inl ValueError
      else if \<not> in_range (snd start_cell) height then Inl ValueError
      else if \<not> in_range (snd finish_cell) height then Inl ValueError
      else Inr ())"

text \<open>
  \<open>solve_maze\<close> takes the start and finish cell from a \<open>CLProcessor\<close> instance,
  whose constructor ends with \<open>__check_inputs\<close>: solving is the construction of the
  instance followed by \<open>solve_maze\<close>.
\<close>

definition solve ::
  "(suggestion list \<Rightarrow> suggestion list) \<Rightarrow> nat \<Rightarrow> maze \<Rightarrow> int \<Rightarrow> int \<Rightarrow> coord \<Rightarrow> coord \<Rightarrow>
   (error + outcome \<times> maze) option" where
  "solve enum fuel Maze width height start_cell finish_cell =
     (case check_inputs width height start_cell finish_cell of
        Inl e \<Rightarrow> Some (Inl e)
      | Inr ok \<Rightarrow> solve_maze enum fuel Maze start_cell finish_cell)"

section \<open>Notions used in the statements\<close>

text \<open>The wall masks of all cells, the part of a maze that a search only reads.\<close>

definition walls :: "maze \<Rightarrow> int list list" where
  "walls maze = map (map wall_index) maze"

definition cell_count :: "maze \<Rightarrow> nat" where
  "cell_count maze = sum_list (map length maze)"

definition unvisited :: "maze \<Rightarrow> nat" where
  "unvisited maze = sum_list (map (\<lambda>row. length (filter (\<lambda>c. \<not> visited c) row)) maze)"

text \<open>Every cell that was visited before is visited afterwards.\<close>

definition keeps_visited :: "maze \<Rightarrow> maze \<Rightarrow> bool" where
  "keeps_visited m m' = list_all2 (list_all2 (\<lambda>c c'. visited c \<longrightarrow> visited c')) m m'"

text \<open>
  What a search may change: the shape and the wall masks stay, a visited flag is
  only ever set.
\<close>

definition search_frame :: "maze \<Rightarrow> maze \<Rightarrow> bool" where
  "search_frame m m' =
     list_all2 (list_all2 (\<lambda>c c'. wall_index c' = wall_index c \<and> (visited c \<longrightarrow> visited c'))) m m'"

text \<open>An array of \<open>h\<close> rows of \<open>w\<close> entries each.\<close>

definition has_shape :: "'a list list \<Rightarrow> nat \<Rightarrow> nat \<Rightarrow> bool" where
  "has_shape arr h w = (length arr = h \<and> list_all (\<lambda>row. length row = w) arr)"

text \<open>\<open>wall_index & flag\<close> as a condition.\<close>

definition has_wall :: "int \<Rightarrow> int \<Rightarrow> bool" where
  "has_wall wi flag = (wi AND flag \<noteq> 0)"

text \<open>
  A wall grid that \<open>create_maze\<close> accepts: at least one row and one column, and no
  entry above 4095, the bound of the \<open>Cell\<close> constructor.
\<close>

definition accepted_grid :: "nat \<Rightarrow> nat \<Rightarrow> grid \<Rightarrow> bool" where
  "accepted_grid h w grid =
     (has_shape grid h w \<and> 0 < h \<and> 0 < w \<and> list_all (list_all (\<lambda>e. e \<le> 4095)) grid)"

text \<open>
  A wall grid as the scanner records it: a left wall only on column 0 and a top wall
  only on row 0; all other walls are right and bottom walls.
\<close>

definition scanner_grid :: "nat \<Rightarrow> nat \<Rightarrow> grid \<Rightarrow> bool" where
  "scanner_grid h w grid =
     (accepted_grid h w grid \<and>
      (\<forall>r<h. \<forall>c<w. (0 < c \<longrightarrow> \<not> has_wall (grid ! r ! c) wi_left) \<and>
                     (0 < r \<longrightarrow> \<not> has_wall (grid ! r ! c) wi_top)))"

text \<open>The walls that the second pair of loops of \<open>create_maze\<close> adds to a cell.\<close>

definition propagated :: "grid \<Rightarrow> nat \<Rightarrow> nat \<Rightarrow> int" where
  "propagated grid r c =
     (if 0 < r \<and> has_wall (grid ! (r - 1) ! c) wi_bottom then wi_top else 0) OR
     (if 0 < c \<and> has_wall (grid ! r ! (c - 1)) wi_right then wi_left else 0)"

text \<open>The walls of a cell that lie on the edge of a maze of \<open>h\<close> rows and \<open>w\<close> columns.\<close>

definition edge_walls :: "nat \<Rightarrow> nat \<Rightarrow> nat \<Rightarrow> nat \<Rightarrow> int" where
  "edge_walls h w r c =
     (if r = 0 then wi_top else 0) OR (if r = h - 1 then wi_bottom else 0) OR
     (if c = 0 then wi_left else 0) OR (if c = w - 1 then wi_right else 0)"

text \<open>A maze of \<open>h\<close> rows and \<open>w\<close> columns whose wall masks are given by \<open>F\<close>.\<close>

definition maze_walls_are :: "nat \<Rightarrow> nat \<Rightarrow> (nat \<Rightarrow> nat \<Rightarrow> int) \<Rightarrow> maze \<Rightarrow> bool" where
  "maze_walls_are h w F m =
     (has_shape m h w \<and> (\<forall>r<h. \<forall>c<w. wall_index (m ! r ! c) = F r c))"

text \<open>
  A cell inside a maze of \<open>height\<close> rows and \<open>width\<close> columns, the cell being a
  pair of a row and a column.
\<close>

definition inside :: "int \<Rightarrow> int \<Rightarrow> coord \<Rightarrow> bool" where
  "inside width height rc =
     (0 \<le> fst rc \<and> fst rc < height \<and> 0 \<le> snd rc \<and> snd rc < width)"

text \<open>
  A step of the search from cell \<open>a\<close> to cell \<open>b\<close> over the wall masks \<open>w\<close>:
  \<open>b\<close> is the left, upper, right or lower neighbour of \<open>a\<close>, and the cell at \<open>a\<close>
  has no wall on that side.
\<close>

definition open_step :: "int list list \<Rightarrow> coord \<Rightarrow> coord \<Rightarrow> bool" where
  "open_step w a b =
     (case locate w a of
        Inl e \<Rightarrow> False
      | Inr pos \<Rightarrow>
          (b = (fst a, snd a - 1) \<and> cell_at w pos AND wi_left = 0) \<or>
          (b = (fst a - 1, snd a) \<and> cell_at w pos AND wi_top = 0) \<or>
          (b = (fst a, snd a + 1) \<and> cell_at w pos AND wi_right = 0) \<or>
          (b = (fst a + 1, snd a) \<and> cell_at w pos AND wi_bottom = 0))"

text \<open>
  A walk from \<open>a\<close> to \<open>b\<close>: a non-empty list of cells that starts with \<open>a\<close>, ends
  with \<open>b\<close> and in which every cell is followed by one that is a step away.
\<close>

definition walk :: "int list list \<Rightarrow> coord \<Rightarrow> coord \<Rightarrow> path \<Rightarrow> bool" where
  "walk w a b p = (p \<noteq> [] \<and> hd p = a \<and> last p = b \<and> successively (open_step w) p)"

text \<open>
  Wall masks of \<open>h\<close> rows and \<open>w\<close> columns in which every inner wall is recorded
  on both of its sides and every cell on an edge has the wall of that edge: a cell has
  its left wall exactly when it is in column 0 or its left neighbour has its right wall,
  and its top wall exactly when it is in row 0 or its upper neighbour has its bottom
  wall; the cells of the last column have their right wall and those of the last row
  their bottom wall.
\<close>

definition shared_walls :: "nat \<Rightarrow> nat \<Rightarrow> int list list \<Rightarrow> bool" where
  "shared_walls h w W =
     (has_shape W h w \<and>
      (\<forall>r<h. \<forall>c<w.
         (has_wall (W ! r ! c) wi_left \<longleftrightarrow> c = 0 \<or> has_wall (W ! r ! (c - 1)) wi_right) \<and>
         (has_wall (W ! r ! c) wi_top \<longleftrightarrow> r = 0 \<or> has_wall (W ! (r - 1) ! c) wi_bottom) \<and>
         (c = w - 1 \<longrightarrow> has_wall (W ! r ! c) wi_right) \<and>
         (r = h - 1 \<longrightarrow> has_wall (W ! r ! c) wi_bottom)))"

text \<open>The wall mask of the cell \<open>a\<close>, a cell inside the maze.\<close>

definition wall_of :: "int list list \<Rightarrow> coord \<Rightarrow> int" where
  "wall_of W a = W ! nat (fst a) ! nat (snd a)"

text \<open>
  No wall between the cells \<open>a\<close> and \<open>b\<close>: \<open>b\<close> is the left, upper, right or
  lower neighbour of \<open>a\<close>, the cell \<open>a\<close> has no wall on the side of \<open>b\<close> and the
  cell \<open>b\<close> has no wall on the side of \<open>a\<close>.
\<close>

definition no_wall_between :: "int list list \<Rightarrow> coord \<Rightarrow> coord \<Rightarrow> bool" where
  "no_wall_between W a b =
     ((b = (fst a, snd a - 1)
         \<and> \<not> has_wall (wall_of W a) wi_left \<and> \<not> has_wall (wall_of W b) wi_right) \<or>
      (b = (fst a - 1, snd a)
         \<and> \<not> has_wall (wall_of W a) wi_top \<and> \<not> has_wall (wall_of W b) wi_bottom) \<or>
      (b = (fst a, snd a + 1)
         \<and> \<not> has_wall (wall_of W a) wi_right \<and> \<not> has_wall (wall_of W b) wi_left) \<or>
      (b = (fst a + 1, snd a)
         \<and> \<not> has_wall (wall_of W a) wi_bottom \<and> \<not> has_wall (wall_of W b) wi_top))"

text \<open>
  The part of the body of \<open>navigate_maze\<close> that runs on an unvisited cell: the
  four attempts and the recording of a dead end.
\<close>

definition explore ::
  "(coord \<Rightarrow> coord \<Rightarrow> path \<Rightarrow> nav_state \<Rightarrow> nav_result option) \<Rightarrow>
   nat \<times> nat \<Rightarrow> coord \<Rightarrow> coord \<Rightarrow> path \<Rightarrow> nav_state \<Rightarrow> nav_result option" where
  "explore recurse pos from_cell to_cell p1 st1 =
     and_then (and_then (and_then (and_then
       (try_move recurse pos wi_left go_left (fst from_cell, snd from_cell - 1) to_cell p1 st1)
       (try_move recurse pos wi_top go_up (fst from_cell - 1, snd from_cell) to_cell))
       (try_move recurse pos wi_right go_right (fst from_cell, snd from_cell + 1) to_cell))
       (try_move recurse pos wi_bottom go_down (fst from_cell + 1, snd from_cell) to_cell))
       record_dead_end"

section \<open>Example mazes\<close>

text \<open>One row of two cells with no wall between them: the maze of the grid \<open>[[0, 0]]\<close>.\<close>

definition corridor :: maze where
  "corridor =
     [[\<lparr>wall_index = 11, display_index = 0, visited = False, direction = 0\<rparr>,
       \<lparr>wall_index = 14, display_index = 0, visited = False, direction = 0\<rparr>]]"

text \<open>One row of two cells with a wall between them: the maze of the grid \<open>[[4, 0]]\<close>.\<close>

definition blocked :: maze where
  "blocked =
     [[\<lparr>wall_index = 15, display_index = 4, visited = False, direction = 0\<rparr>,
       \<lparr>wall_index = 15, display_index = 0, visited = False, direction = 0\<rparr>]]"

text \<open>
  Two rows of two cells with a wall between the rows: the maze of the grid
  \<open>[[8, 8], [0, 0]]\<close>.
\<close>

definition two_rooms :: maze where
  "two_rooms =
     [[\<lparr>wall_index = 11, display_index = 8, visited = False, direction = 0\<rparr>,
       \<lparr>wall_index = 14, display_index = 8, visited = False, direction = 0\<rparr>],
      [\<lparr>wall_index = 11, display_index = 0, visited = False, direction = 0\<rparr>,
       \<lparr>wall_index = 14, display_index = 0, visited = False, direction = 0\<rparr>]]"

text \<open>Two rows of two cells with no inner wall: the maze of the grid \<open>[[0, 0], [0, 0]]\<close>.\<close>

definition open_square :: maze where
  "open_square =
     [[\<lparr>wall_index = 3, display_index = 0, visited = False, direction = 0\<rparr>,
       \<lparr>wall_index = 6, display_index = 0, visited = False, direction = 0\<rparr>],
      [\<lparr>wall_index = 9, display_index = 0, visited = False, direction = 0\<rparr>,
       \<lparr>wall_index = 12, display_index = 0, visited = False, direction = 0\<rparr>]]"

text \<open>
  Two rows of two cells with a wall between the two cells of the upper row: the maze
  of the grid \<open>[[4, 0], [0, 0]]\<close>.
\<close>

definition detour :: maze where
  "detour =
     [[\<lparr>wall_index = 7, display_index = 4, visited = False, direction = 0\<rparr>,
       \<lparr>wall_index = 7, display_index = 0, visited = False, direction = 0\<rparr>],
      [\<lparr>wall_index = 9, display_index = 0, visited = False, direction = 0\<rparr>,
       \<lparr>wall_index = 12, display_index = 0, visited = False, direction = 0\<rparr>]]"

text \<open>
  The maze of the grid \<open>[[0, 1], [0, 0]]\<close>, which records a left wall on the cell
  \<open>(0, 1)\<close> and no right wall on the cell \<open>(0, 0)\<close>; the scanner writes no such
  grid.
\<close>

definition one_sided :: maze where
  "one_sided =
     [[\<lparr>wall_index = 3, display_index = 0, visited = False, direction = 0\<rparr>,
       \<lparr>wall_index = 7, display_index = 1, visited = False, direction = 0\<rparr>],
      [\<lparr>wall_index = 9, display_index = 0, visited = False, direction = 0\<rparr>,
       \<lparr>wall_index = 12, display_index = 0, visited = False, direction = 0\<rparr>]]"

section \<open>Properties of find_suggestions\<close>

lemma for_each_never_raises:
  assumes "\<And>x s. x \<in> set xs \<Longrightarrow> \<exists>s'. body x s = Inr s'"
  shows "\<exists>s'. for_each xs body s = Inr s'"
  using assms
proof (induction xs arbitrary: s)
  case Nil
  show ?case by simp
next
  case (Cons x xs)
  from Cons.prems[of x s] obtain s1 where s1: "body x s = Inr s1" by auto
  have "\<exists>s'. for_each xs body s1 = Inr s'"
    by (rule Cons.IH) (simp add: Cons.prems)
  with s1 show ?case by simp
qed

lemma sum_of_squares_is_one:
  assumes "(a::int)\<^sup>2 + b\<^sup>2 = 1"
  shows "(a = - 1 \<and> b = 0) \<or> (a = 1 \<and> b = 0) \<or> (a = 0 \<and> b = - 1) \<or> (a = 0 \<and> b = 1)"
proof -
  have a2: "a\<^sup>2 \<le> 1" and b2: "b\<^sup>2 \<le> 1"
    using assms zero_le_power2[of a] zero_le_power2[of b] by linarith+
  have "\<bar>a\<bar> \<le> 1" using a2 by (simp only: abs_square_le_1)
  hence a: "a = - 1 \<or> a = 0 \<or> a = 1" by linarith
  have "\<bar>b\<bar> \<le> 1" using b2 by (simp only: abs_square_le_1)
  hence b: "b = - 1 \<or> b = 0 \<or> b = 1" by linarith
  from a b assms show ?thesis by auto
qed

lemma calc_distance_one_iff:
  "calc_distance t1 t2 = 1 \<longleftrightarrow> (fst t1 - fst t2)\<^sup>2 + (snd t1 - snd t2)\<^sup>2 = 1"
  unfolding calc_distance_def real_sqrt_eq_1_iff by linarith

lemma unit_shift_of_distance_one:
  assumes "calc_distance t1 t2 = 1"
  shows "(fst t1 - fst t2, snd t1 - snd t2) \<in> {(- 1, 0), (1, 0), (0, - 1), (0, 1)}"
  using sum_of_squares_is_one[OF assms[unfolded calc_distance_one_iff]] by auto

lemma length_pairs_distances: "length (pairs a b) = length (distances a b)"
  by (simp add: pairs_def distances_def length_concat comp_def)

lemma distances_nth:
  "i < length (distances a b) \<Longrightarrow>
     distances a b ! i = calc_distance (fst (pairs a b ! i)) (snd (pairs a b ! i))"
proof -
  have "distances a b = map (\<lambda>p. calc_distance (fst p) (snd p)) (pairs a b)"
    by (simp add: pairs_def distances_def map_concat comp_def)
  thus "i < length (distances a b) \<Longrightarrow> ?thesis" by simp
qed

lemma nth_filter_upt:
  "map (\<lambda>i. xs ! i) (filter (\<lambda>i. P (xs ! i)) [0 ..< length xs]) = filter P xs"
proof (induction xs rule: rev_induct)
  case Nil
  show ?case by simp
next
  case (snoc x xs)
  have "filter (\<lambda>i. P ((xs @ [x]) ! i)) [0 ..< length xs]
        = filter (\<lambda>i. P (xs ! i)) [0 ..< length xs]"
    by (rule filter_cong) (auto simp: nth_append)
  moreover have "map (\<lambda>i. (xs @ [x]) ! i) (filter (\<lambda>i. P (xs ! i)) [0 ..< length xs])
        = map (\<lambda>i. xs ! i) (filter (\<lambda>i. P (xs ! i)) [0 ..< length xs])"
    by (rule map_cong) (auto simp: nth_append)
  ultimately show ?case using snoc.IH by simp
qed

lemma distances_map:
  "distances a b = map (\<lambda>p. calc_distance (fst p) (snd p)) (pairs a b)"
  by (simp add: pairs_def distances_def map_concat comp_def)

text \<open>The distance filter in integer arithmetic, for evaluation.\<close>

lemma candidates_code [code]:
  "candidates a b =
     filter (\<lambda>p. (fst (fst p) - fst (snd p))\<^sup>2 + (snd (fst p) - snd (snd p))\<^sup>2 = 1)
       (pairs a b)"
proof -
  have "candidates a b =
      map (\<lambda>i. pairs a b ! i)
        (filter (\<lambda>i. calc_distance (fst (pairs a b ! i)) (snd (pairs a b ! i)) = 1)
           [0 ..< length (pairs a b)])"
    unfolding candidates_def distances_map
    by (auto intro!: arg_cong[where f="map _"] filter_cong)
  also have "\<dots> = filter (\<lambda>p. calc_distance (fst p) (snd p) = 1) (pairs a b)"
    by (rule nth_filter_upt[where P="\<lambda>p. calc_distance (fst p) (snd p) = 1"])
  finally show ?thesis by (simp add: calc_distance_one_iff)
qed

lemma candidates_distance_one:
  assumes "c \<in> set (candidates a b)"
  shows "calc_distance (fst c) (snd c) = 1"
  using assms by (auto simp: candidates_def distances_nth)

lemma wall_to_remove_candidate:
  assumes "c \<in> set (candidates a b)"
  shows "\<exists>w. wall_to_remove c = Inr w"
  using unit_shift_of_distance_one[OF candidates_distance_one[OF assms]]
  by (auto simp: wall_to_remove_def Let_def)

lemma collect_coordinates_never_raises:
  "\<exists>cs. collect_coordinates from_start from_finish = Inr cs"
  unfolding collect_coordinates_def
proof (intro for_each_never_raises)
  fix c s fFinish fStart
  assume "c \<in> set (candidates fStart fFinish)"
  from wall_to_remove_candidate[OF this]
  show "\<exists>s'. add_candidate c s = Inr s'"
    by (auto simp: add_candidate_def)
qed

text \<open>
  C8.  Two cells with integer coordinates whose distance is exactly 1 differ by one of
  the four unit shifts \<open>(-1,0)\<close>, \<open>(1,0)\<close>, \<open>(0,-1)\<close>, \<open>(0,1)\<close>; hence every pair
  selected by the distance filter is mapped to a wall and \<open>find_suggestions\<close> returns
  a list for every pair of dead-end path lists: the \<open>ValueError\<close> branch is never
  taken.
\<close>

theorem distance_one_is_unit_shift_and_find_suggestions_never_raises:
  "(calc_distance t1 t2 = 1 \<longrightarrow>
      (fst t1 - fst t2, snd t1 - snd t2) \<in> {(- 1, 0), (1, 0), (0, - 1), (0, 1)})
   \<and> (\<exists>cs. find_suggestions enum from_start from_finish = Inr cs)"
proof
  show "calc_distance t1 t2 = 1 \<longrightarrow>
      (fst t1 - fst t2, snd t1 - snd t2) \<in> {(- 1, 0), (1, 0), (0, - 1), (0, 1)}"
    using unit_shift_of_distance_one by blast
next
  obtain cs where "collect_coordinates from_start from_finish = Inr cs"
    using collect_coordinates_never_raises by blast
  thus "\<exists>cs. find_suggestions enum from_start from_finish = Inr cs"
    by (simp add: find_suggestions_def)
qed

theorem distance_one_is_unit_shift_witness:
  "calc_distance (0, 0) (1, 0) = 1
   \<and> (fst (0::int, 0::int) - fst (1::int, 0::int), snd (0::int, 0::int) - snd (1::int, 0::int))
        \<in> {(- 1, 0), (1, 0), (0, - 1), (0, 1)}
   \<and> (\<exists>cs. find_suggestions remdups [[(0, 0)]] [[(1, 0)]] = Inr cs)"
proof -
  have d: "calc_distance (0, 0) (1, 0) = 1" by (simp add: calc_distance_def)
  from distance_one_is_unit_shift_and_find_suggestions_never_raises
         [of "(0, 0)" "(1, 0)" remdups "[[(0, 0)]]" "[[(1, 0)]]"] d
  show ?thesis by blast
qed

section \<open>What a search may change\<close>

lemma py_index_range: "py_index n k = Inr i \<Longrightarrow> i < n"
  by (auto simp: py_index_def split: if_splits)

lemma locate_range: "locate arr rc = Inr pos \<Longrightarrow> fst pos < length arr \<and> snd pos < length (arr ! fst pos)"
  by (auto simp: locate_def split: sum.splits dest: py_index_range)

lemma nested_all2_refl: "(\<And>x. R x x) \<Longrightarrow> list_all2 (list_all2 R) m m"
  by (simp add: list_all2_refl)

lemma nested_all2_set_cell:
  assumes "\<And>x. R x x" and "R (cell_at m pos) x"
  shows "list_all2 (list_all2 R) m (set_cell m pos x)"
proof (cases "fst pos < length m")
  case False
  hence "set_cell m pos x = m" by (simp add: set_cell_def list_update_beyond)
  thus ?thesis using assms(1) by (simp add: list_all2_refl)
next
  case True
  have row: "list_all2 R (m ! fst pos) ((m ! fst pos)[snd pos := x])"
  proof (cases "snd pos < length (m ! fst pos)")
    case False
    thus ?thesis using assms(1) by (simp add: list_all2_refl list_update_beyond)
  next
    case True
    thus ?thesis using assms
      by (auto simp: list_all2_conv_all_nth cell_at_def nth_list_update)
  qed
  show ?thesis
    unfolding set_cell_def list_all2_conv_all_nth[of "list_all2 R"]
  proof (intro conjI allI impI)
    show "length m = length (m[fst pos := (m ! fst pos)[snd pos := x]])" by simp
  next
    fix i assume "i < length m"
    thus "list_all2 R (m ! i) (m[fst pos := (m ! fst pos)[snd pos := x]] ! i)"
      using True row assms(1) by (cases "i = fst pos") (simp_all add: list_all2_refl)
  qed
qed

lemma search_frame_refl: "search_frame m m"
  unfolding search_frame_def by (rule nested_all2_refl) simp

lemma search_frame_trans: "search_frame a b \<Longrightarrow> search_frame b c \<Longrightarrow> search_frame a c"
  unfolding search_frame_def
  by (erule list_all2_trans[rotated], assumption) (erule list_all2_trans[rotated], assumption, auto)

lemma search_frame_set_cell:
  assumes "wall_index x = wall_index (cell_at m pos)" and "visited (cell_at m pos) \<longrightarrow> visited x"
  shows "search_frame m (set_cell m pos x)"
  unfolding search_frame_def using assms by (intro nested_all2_set_cell) auto

lemma search_frame_walls: "search_frame m m' \<Longrightarrow> walls m' = walls m"
  unfolding search_frame_def walls_def
  by (auto simp: list_all2_conv_all_nth intro!: nth_equalityI)

lemma search_frame_keeps_visited: "search_frame m m' \<Longrightarrow> keeps_visited m m'"
  unfolding search_frame_def keeps_visited_def
  by (erule list_all2_mono) (erule list_all2_mono, simp)

lemma row_unvisited_mono:
  "list_all2 (\<lambda>c c'. visited c \<longrightarrow> visited c') r r' \<Longrightarrow>
     length (filter (\<lambda>c. \<not> visited c) r') \<le> length (filter (\<lambda>c. \<not> visited c) r)"
  by (induction rule: list_all2_induct) auto

lemma keeps_visited_unvisited: "keeps_visited m m' \<Longrightarrow> unvisited m' \<le> unvisited m"
  unfolding keeps_visited_def unvisited_def
proof (induction rule: list_all2_induct)
  case Nil show ?case by simp
next
  case (Cons r rs r' rs')
  from row_unvisited_mono[OF Cons.hyps(1)] Cons.IH show ?case by simp
qed

lemma search_frame_unvisited: "search_frame m m' \<Longrightarrow> unvisited m' \<le> unvisited m"
  by (rule keeps_visited_unvisited[OF search_frame_keeps_visited])

lemma unvisited_le_cell_count: "unvisited m \<le> cell_count m"
  unfolding unvisited_def cell_count_def
  by (induction m) (auto intro: add_mono)

lemma row_mark:
  assumes "j < length r" "\<not> visited (r ! j)" 
  shows "length (filter (\<lambda>c. \<not> visited c) (r[j := (r ! j)\<lparr>visited := True\<rparr>])) < length (filter (\<lambda>c. \<not> visited c) r)"
proof -
  have r: "r = take j r @ (r ! j) # drop (Suc j) r" using assms(1) by (rule id_take_nth_drop)
  have u: "r[j := (r ! j)\<lparr>visited := True\<rparr>] = take j r @ ((r ! j)\<lparr>visited := True\<rparr>) # drop (Suc j) r"
    using assms(1) by (rule upd_conv_take_nth_drop)
  have "length (filter (\<lambda>c. \<not> visited c) r) = length (filter (\<lambda>c. \<not> visited c) (take j r)) + 1 + length (filter (\<lambda>c. \<not> visited c) (drop (Suc j) r))"
    by (subst r) (simp add: assms(2))
  moreover have "length (filter (\<lambda>c. \<not> visited c) (r[j := (r ! j)\<lparr>visited := True\<rparr>])) = length (filter (\<lambda>c. \<not> visited c) (take j r)) + length (filter (\<lambda>c. \<not> visited c) (drop (Suc j) r))"
    by (subst u) simp
  ultimately show ?thesis by simp
qed

lemma unvisited_mark:
  assumes "fst pos < length m" "snd pos < length (m ! fst pos)" "\<not> visited (cell_at m pos)"
  shows "unvisited (set_cell m pos ((cell_at m pos)\<lparr>visited := True\<rparr>)) < unvisited m"
proof -
  let ?f = "\<lambda>row. length (filter (\<lambda>c. \<not> visited c) row)"
  let ?i = "fst pos" let ?j = "snd pos"
  let ?r' = "(m ! ?i)[?j := (m ! ?i ! ?j)\<lparr>visited := True\<rparr>]"
  have m: "m = take ?i m @ (m ! ?i) # drop (Suc ?i) m" using assms(1) by (rule id_take_nth_drop)
  have u: "m[?i := ?r'] = take ?i m @ ?r' # drop (Suc ?i) m"
    using assms(1) by (rule upd_conv_take_nth_drop)
  have lt: "?f ?r' < ?f (m ! ?i)" using assms(2,3) by (intro row_mark) (simp_all add: cell_at_def)
  have "unvisited m = sum_list (map ?f (take ?i m)) + ?f (m ! ?i) + sum_list (map ?f (drop (Suc ?i) m))"
    unfolding unvisited_def by (subst m) simp
  moreover have "unvisited (m[?i := ?r']) = sum_list (map ?f (take ?i m)) + ?f ?r' + sum_list (map ?f (drop (Suc ?i) m))"
    unfolding unvisited_def by (subst u) simp
  ultimately show ?thesis using lt by (simp add: set_cell_def cell_at_def)
qed

lemma and_then_cases:
  assumes "and_then r0 g = Some (res, s2)"
  obtains (raised) e where "r0 = Some (Inl e, s2)" "res = Inl e"
        | (went_on) p s1 where "r0 = Some (Inr p, s1)" "g p s1 = Some (res, s2)"
  using assms by (auto simp: and_then_def split: option.splits sum.splits prod.splits)

lemma and_then_frame:
  assumes "and_then r0 g = Some (res, s2)"
    and "\<And>res s. r0 = Some (res, s) \<Longrightarrow> search_frame m (fst s)"
    and "\<And>p s res s'. g p s = Some (res, s') \<Longrightarrow> search_frame (fst s) (fst s')"
  shows "search_frame m (fst s2)"
  using assms(1)
proof (cases rule: and_then_cases)
  case (raised e)
  thus ?thesis using assms(2) by blast
next
  case (went_on p s1)
  from assms(2)[OF went_on(1)] assms(3)[OF went_on(2)] show ?thesis
    by (rule search_frame_trans)
qed

lemma try_move_frame:
  assumes rec: "\<And>a b c s r s'. recurse a b c s = Some (r, s') \<Longrightarrow> search_frame (fst s) (fst s')"
    and "try_move recurse pos wall go next_cell to_cell p st = Some (res, st')"
  shows "search_frame (fst st) (fst st')"
proof -
  let ?m1 = "set_cell (fst st) pos ((cell_at (fst st) pos)\<lparr>direction := go\<rparr>)"
  have f1: "search_frame (fst st) ?m1" by (rule search_frame_set_cell) simp_all
  from assms(2) consider "st' = st" | "recurse next_cell to_cell p (?m1, snd st) = Some (res, st')"
    by (auto simp: try_move_def split: if_splits list.splits)
  thus ?thesis
  proof cases
    case 1 thus ?thesis by (simp add: search_frame_refl)
  next
    case 2
    from rec[OF 2] have "search_frame ?m1 (fst st')" by simp
    with f1 show ?thesis by (rule search_frame_trans)
  qed
qed

lemma record_dead_end_frame:
  "record_dead_end p st = Some (res, st') \<Longrightarrow> search_frame (fst st) (fst st')"
  by (auto simp: record_dead_end_def search_frame_refl split: list.splits if_splits)

lemma navigate_body_cases [case_names goal no_cell seen empty_path flagged explore]:
  obtains
    (goal) "from_cell = to_cell"
      "\<And>recurse. navigate_body recurse from_cell to_cell maze_path st =
         Some (Inr (sentinel # maze_path @ [from_cell]), st)"
  | (no_cell) e where "from_cell \<noteq> to_cell" "locate (fst st) from_cell = Inl e"
      "\<And>recurse. navigate_body recurse from_cell to_cell maze_path st = Some (Inl e, st)"
  | (seen) pos where "from_cell \<noteq> to_cell" "locate (fst st) from_cell = Inr pos"
      "visited (cell_at (fst st) pos)"
      "\<And>recurse. navigate_body recurse from_cell to_cell maze_path st = Some (Inr maze_path, st)"
  | (empty_path) "from_cell \<noteq> to_cell" "maze_path = []"
      "\<And>recurse. navigate_body recurse from_cell to_cell maze_path st =
         Some (Inl IndexError, st)"
  | (flagged) "from_cell \<noteq> to_cell" "maze_path \<noteq> []" "hd maze_path = sentinel"
      "\<And>recurse. navigate_body recurse from_cell to_cell maze_path st = Some (Inr maze_path, st)"
  | (explore) pos where "from_cell \<noteq> to_cell" "locate (fst st) from_cell = Inr pos"
      "\<not> visited (cell_at (fst st) pos)" "maze_path \<noteq> []" "hd maze_path \<noteq> sentinel"
      "\<And>recurse. navigate_body recurse from_cell to_cell maze_path st =
         explore recurse pos from_cell to_cell (maze_path @ [from_cell])
           (set_cell (fst st) pos ((cell_at (fst st) pos)\<lparr>visited := True\<rparr>), snd st)"
proof (cases "from_cell = to_cell")
  case True
  thus ?thesis by (intro goal) (simp_all add: navigate_body_def)
next
  case ne: False
  show ?thesis
  proof (cases "locate (fst st) from_cell")
    case (Inl e)
    with ne show ?thesis by (intro no_cell[of e]) (simp_all add: navigate_body_def)
  next
    case (Inr pos)
    show ?thesis
    proof (cases "visited (cell_at (fst st) pos)")
      case True
      with ne Inr show ?thesis by (intro seen[of pos]) (simp_all add: navigate_body_def)
    next
      case nv: False
      show ?thesis
      proof (cases maze_path)
        case Nil
        with ne Inr nv show ?thesis by (intro empty_path) (simp_all add: navigate_body_def)
      next
        case (Cons p0 ps)
        show ?thesis
        proof (cases "p0 = sentinel")
          case True
          with ne Inr nv Cons show ?thesis by (intro flagged) (simp_all add: navigate_body_def)
        next
          case False
          with ne Inr nv Cons show ?thesis
            by (intro explore[of pos]) (simp_all add: navigate_body_def explore_def Let_def)
        qed
      qed
    qed
  qed
qed

lemma explore_frame:
  assumes rec: "\<And>a b c s r s'. recurse a b c s = Some (r, s') \<Longrightarrow> search_frame (fst s) (fst s')"
    and ex: "explore recurse pos from_cell to_cell p1 st1 = Some (res, st')"
  shows "search_frame (fst st1) (fst st')"
proof -
  define c1 where "c1 = try_move recurse pos wi_left go_left (fst from_cell, snd from_cell - 1) to_cell p1 st1"
  define c2 where "c2 = and_then c1 (try_move recurse pos wi_top go_up (fst from_cell - 1, snd from_cell) to_cell)"
  define c3 where "c3 = and_then c2 (try_move recurse pos wi_right go_right (fst from_cell, snd from_cell + 1) to_cell)"
  define c4 where "c4 = and_then c3 (try_move recurse pos wi_bottom go_down (fst from_cell + 1, snd from_cell) to_cell)"
  have tm: "search_frame (fst s) (fst s')"
    if "try_move recurse pos w g nx to_cell p s = Some (r, s')" for w g nx p s r s'
    using rec that by (rule try_move_frame)
  have f1: "search_frame (fst st1) (fst s)" if "c1 = Some (r, s)" for r s
    using that unfolding c1_def by (rule tm)
  have f2: "search_frame (fst st1) (fst s)" if "c2 = Some (r, s)" for r s
    using that unfolding c2_def by (rule and_then_frame) (erule f1, erule tm)
  have f3: "search_frame (fst st1) (fst s)" if "c3 = Some (r, s)" for r s
    using that unfolding c3_def by (rule and_then_frame) (erule f2, erule tm)
  have f4: "search_frame (fst st1) (fst s)" if "c4 = Some (r, s)" for r s
    using that unfolding c4_def by (rule and_then_frame) (erule f3, erule tm)
  from ex have "and_then c4 record_dead_end = Some (res, st')"
    by (simp add: explore_def c1_def c2_def c3_def c4_def)
  thus ?thesis by (rule and_then_frame) (erule f4, erule record_dead_end_frame)
qed

lemma navigate_body_frame:
  assumes rec: "\<And>a b c s r s'. recurse a b c s = Some (r, s') \<Longrightarrow> search_frame (fst s) (fst s')"
    and body: "navigate_body recurse from_cell to_cell maze_path st = Some (res, st')"
  shows "search_frame (fst st) (fst st')"
proof (cases rule: navigate_body_cases[of from_cell to_cell maze_path st])
  case (explore pos)
  let ?m1 = "set_cell (fst st) pos ((cell_at (fst st) pos)\<lparr>visited := True\<rparr>)"
  have f1: "search_frame (fst st) ?m1" by (rule search_frame_set_cell) simp_all
  from body explore(6)
  have "explore recurse pos from_cell to_cell (maze_path @ [from_cell]) (?m1, snd st)
          = Some (res, st')"
    by simp
  with rec have "search_frame (fst (?m1, snd st)) (fst st')"
    by (rule explore_frame[where recurse = recurse])
  with f1 show ?thesis by (simp add: search_frame_trans)
qed (use body in \<open>auto simp: search_frame_refl\<close>)

lemma navigate_maze_frame:
  "navigate_maze fuel from_cell to_cell maze_path st = Some (res, st') \<Longrightarrow>
     search_frame (fst st) (fst st')"
proof (induction fuel arbitrary: from_cell to_cell maze_path st res st')
  case 0
  thus ?case by simp
next
  case (Suc fuel)
  from Suc.prems have "navigate_body (navigate_maze fuel) from_cell to_cell maze_path st = Some (res, st')"
    by simp
  with Suc.IH show ?case by (rule navigate_body_frame[where recurse = "navigate_maze fuel"])
qed

section \<open>Termination of the search\<close>

lemma and_then_returns:
  assumes "r0 \<noteq> None" and "\<And>p s. r0 = Some (Inr p, s) \<Longrightarrow> g p s \<noteq> None"
  shows "and_then r0 g \<noteq> None"
  using assms by (auto simp: and_then_def split: option.splits sum.splits prod.splits)

lemma try_move_returns:
  assumes rec: "\<And>a b c s. unvisited (fst s) < n \<Longrightarrow> recurse a b c s \<noteq> None"
    and less: "unvisited (fst st) < n"
  shows "try_move recurse pos wall go next_cell to_cell p st \<noteq> None"
proof -
  let ?m1 = "set_cell (fst st) pos ((cell_at (fst st) pos)\<lparr>direction := go\<rparr>)"
  have "search_frame (fst st) ?m1" by (rule search_frame_set_cell) simp_all
  hence "unvisited ?m1 \<le> unvisited (fst st)" by (rule search_frame_unvisited)
  with less have "unvisited (fst (?m1, snd st)) < n" by simp
  hence "recurse next_cell to_cell p (?m1, snd st) \<noteq> None" by (rule rec)
  thus ?thesis by (simp add: try_move_def split: list.splits)
qed

lemma record_dead_end_returns: "record_dead_end p st \<noteq> None"
  by (simp add: record_dead_end_def split: list.splits)

lemma explore_returns:
  assumes frame: "\<And>a b c s r s'. recurse a b c s = Some (r, s') \<Longrightarrow> search_frame (fst s) (fst s')"
    and rec: "\<And>a b c s. unvisited (fst s) < n \<Longrightarrow> recurse a b c s \<noteq> None"
    and less: "unvisited (fst st1) < n"
  shows "explore recurse pos from_cell to_cell p1 st1 \<noteq> None"
proof -
  define c1 where "c1 = try_move recurse pos wi_left go_left (fst from_cell, snd from_cell - 1) to_cell p1 st1"
  define c2 where "c2 = and_then c1 (try_move recurse pos wi_top go_up (fst from_cell - 1, snd from_cell) to_cell)"
  define c3 where "c3 = and_then c2 (try_move recurse pos wi_right go_right (fst from_cell, snd from_cell + 1) to_cell)"
  define c4 where "c4 = and_then c3 (try_move recurse pos wi_bottom go_down (fst from_cell + 1, snd from_cell) to_cell)"
  have tm: "search_frame (fst s) (fst s')"
    if "try_move recurse pos w g nx to_cell p s = Some (r, s')" for w g nx p s r s'
    using frame that by (rule try_move_frame)
  have f1: "search_frame (fst st1) (fst s)" if "c1 = Some (r, s)" for r s
    using that unfolding c1_def by (rule tm)
  have f2: "search_frame (fst st1) (fst s)" if "c2 = Some (r, s)" for r s
    using that unfolding c2_def by (rule and_then_frame) (erule f1, erule tm)
  have f3: "search_frame (fst st1) (fst s)" if "c3 = Some (r, s)" for r s
    using that unfolding c3_def by (rule and_then_frame) (erule f2, erule tm)
  have small: "unvisited (fst s) < n" if "search_frame (fst st1) (fst s)" for s
    using search_frame_unvisited[OF that] less by simp
  have go_on: "try_move recurse pos w g nx to_cell p s \<noteq> None"
    if "search_frame (fst st1) (fst s)" for w g nx p s
    using rec small[OF that] by (rule try_move_returns)
  have r1: "c1 \<noteq> None"
    unfolding c1_def using rec less by (rule try_move_returns)
  have r2: "c2 \<noteq> None"
    unfolding c2_def using r1 by (rule and_then_returns) (rule go_on, erule f1)
  have r3: "c3 \<noteq> None"
    unfolding c3_def using r2 by (rule and_then_returns) (rule go_on, erule f2)
  have r4: "c4 \<noteq> None"
    unfolding c4_def using r3 by (rule and_then_returns) (rule go_on, erule f3)
  have "and_then c4 record_dead_end \<noteq> None"
    using r4 by (rule and_then_returns) (rule record_dead_end_returns)
  thus ?thesis by (simp add: explore_def c1_def c2_def c3_def c4_def)
qed

lemma navigate_body_returns:
  assumes frame: "\<And>a b c s r s'. recurse a b c s = Some (r, s') \<Longrightarrow> search_frame (fst s) (fst s')"
    and rec: "\<And>a b c s. unvisited (fst s) < n \<Longrightarrow> recurse a b c s \<noteq> None"
    and less: "unvisited (fst st) < Suc n"
  shows "navigate_body recurse from_cell to_cell maze_path st \<noteq> None"
proof (cases rule: navigate_body_cases[of from_cell to_cell maze_path st])
  case (explore pos)
  let ?m1 = "set_cell (fst st) pos ((cell_at (fst st) pos)\<lparr>visited := True\<rparr>)"
  from locate_range[OF explore(2)] explore(3)
  have "unvisited ?m1 < unvisited (fst st)" by (intro unvisited_mark) simp_all
  with less have "unvisited (fst (?m1, snd st)) < n" by simp
  with frame rec
  have "explore recurse pos from_cell to_cell (maze_path @ [from_cell]) (?m1, snd st) \<noteq> None"
    by (rule explore_returns[where recurse = recurse])
  with explore(6) show ?thesis by simp
qed simp_all

lemma navigate_maze_returns:
  "unvisited (fst st) < fuel \<Longrightarrow> navigate_maze fuel from_cell to_cell maze_path st \<noteq> None"
proof (induction fuel arbitrary: from_cell to_cell maze_path st)
  case 0
  thus ?case by simp
next
  case (Suc fuel)
  have "navigate_body (navigate_maze fuel) from_cell to_cell maze_path st \<noteq> None"
  proof (rule navigate_body_returns[where recurse = "navigate_maze fuel" and n = fuel])
    show "search_frame (fst s) (fst s')" if "navigate_maze fuel a b c s = Some (r, s')" for a b c s r s'
      using that by (rule navigate_maze_frame)
    show "navigate_maze fuel a b c s \<noteq> None" if "unvisited (fst s) < fuel" for a b c s
      using that by (rule Suc.IH)
    show "unvisited (fst st) < Suc fuel" by (rule Suc.prems)
  qed
  thus ?case by simp
qed

text \<open>More fuel does not change a result.\<close>

lemma and_then_mono:
  assumes "and_then r0 g = Some x"
    and "\<And>y. r0 = Some y \<Longrightarrow> r0' = Some y"
    and "\<And>p s y. g p s = Some y \<Longrightarrow> g' p s = Some y"
  shows "and_then r0' g' = Some x"
proof -
  obtain res s2 where x: "x = (res, s2)" by (cases x)
  from assms(1)[unfolded x] show ?thesis
  proof (cases rule: and_then_cases)
    case (raised e)
    from assms(2)[OF raised(1)] raised(2) x show ?thesis by (simp add: and_then_def)
  next
    case (went_on p s1)
    from assms(2)[OF went_on(1)] assms(3)[OF went_on(2)] x show ?thesis
      by (simp add: and_then_def)
  qed
qed

lemma try_move_mono:
  assumes "\<And>a b c s y. recurse a b c s = Some y \<Longrightarrow> recurse' a b c s = Some y"
    and "try_move recurse pos wall go next_cell to_cell p st = Some x"
  shows "try_move recurse' pos wall go next_cell to_cell p st = Some x"
  using assms(2) by (auto simp: try_move_def assms(1) split: if_splits list.splits)

lemma explore_mono:
  assumes rec: "\<And>a b c s y. recurse a b c s = Some y \<Longrightarrow> recurse' a b c s = Some y"
    and ex: "explore recurse pos from_cell to_cell p1 st1 = Some x"
  shows "explore recurse' pos from_cell to_cell p1 st1 = Some x"
proof -
  have tm: "try_move recurse' pos w g nx to_cell p s = Some y"
    if "try_move recurse pos w g nx to_cell p s = Some y" for w g nx p s y
    using rec that by (rule try_move_mono[where recurse = recurse])
  show ?thesis
    using ex unfolding explore_def
    apply (rule and_then_mono)
     apply (erule and_then_mono)
      apply (erule and_then_mono)
       apply (erule and_then_mono)
        apply (erule tm)
       apply (erule tm)
      apply (erule tm)
     apply (erule tm)
    apply assumption
    done
qed

lemma navigate_body_mono:
  assumes rec: "\<And>a b c s y. recurse a b c s = Some y \<Longrightarrow> recurse' a b c s = Some y"
    and body: "navigate_body recurse from_cell to_cell maze_path st = Some x"
  shows "navigate_body recurse' from_cell to_cell maze_path st = Some x"
proof (cases rule: navigate_body_cases[of from_cell to_cell maze_path st])
  case (explore pos)
  let ?st1 = "(set_cell (fst st) pos ((cell_at (fst st) pos)\<lparr>visited := True\<rparr>), snd st)"
  from body explore(6)
  have "explore recurse pos from_cell to_cell (maze_path @ [from_cell]) ?st1 = Some x" by simp
  with rec have "explore recurse' pos from_cell to_cell (maze_path @ [from_cell]) ?st1 = Some x"
    by (rule explore_mono[where recurse = recurse])
  thus ?thesis using explore(6) by simp
qed (use body in simp_all)

lemma navigate_maze_Suc:
  "navigate_maze fuel from_cell to_cell maze_path st = Some x \<Longrightarrow>
     navigate_maze (Suc fuel) from_cell to_cell maze_path st = Some x"
proof (induction fuel arbitrary: from_cell to_cell maze_path st x)
  case 0
  thus ?case by simp
next
  case (Suc fuel)
  from Suc.prems
  have "navigate_body (navigate_maze fuel) from_cell to_cell maze_path st = Some x" by simp
  with Suc.IH
  have "navigate_body (navigate_maze (Suc fuel)) from_cell to_cell maze_path st = Some x"
    by (rule navigate_body_mono[where recurse = "navigate_maze fuel"])
  thus ?case by simp
qed

lemma navigate_maze_more_fuel:
  "navigate_maze fuel from_cell to_cell maze_path st = Some x \<Longrightarrow>
     navigate_maze (fuel + k) from_cell to_cell maze_path st = Some x"
  by (induction k) (auto dest: navigate_maze_Suc)

section \<open>The two searches of find_paths\<close>

lemma example_mazes:
  "create_maze [[0, 0]] = Inr corridor"
  "create_maze [[4, 0]] = Inr blocked"
  "create_maze [[8, 8], [0, 0]] = Inr two_rooms"
  by code_simp+


lemma clear_loop_id: "clear_loop maze = maze"
  by (simp add: clear_loop_def map_idI)

lemma find_paths_frame:
  assumes "find_paths fuel maze start_cell finish_cell = Some (res, maze')"
  shows "search_frame maze maze'"
proof (cases "forward_search fuel maze start_cell finish_cell")
  case None
  with assms show ?thesis by (simp add: find_paths_def)
next
  case (Some r1)
  obtain res1 st1 where r1: "r1 = (res1, st1)" by (cases r1)
  from Some r1 have f1: "search_frame maze (fst st1)"
    using navigate_maze_frame[of fuel start_cell finish_cell "[start_cell]" "(maze, [])" res1 st1]
    by (simp add: forward_search_def clear_loop_id)
  show ?thesis
  proof (cases "\<exists>p. res1 = Inr p \<and> \<not> length p > 1")
    case False
    with assms Some r1 have "maze' = fst st1"
      by (auto simp: find_paths_def split: sum.splits if_splits)
    with f1 show ?thesis by simp
  next
    case True
    then obtain p where p: "res1 = Inr p" "\<not> length p > 1" by blast
    with assms Some r1 obtain res2 st2 where
      r2: "reverse_search fuel (fst st1) start_cell finish_cell = Some (res2, st2)" and m': "maze' = fst st2"
      by (auto simp: find_paths_def split: option.splits sum.splits prod.splits)
    from r2 have "search_frame (fst st1) (fst st2)"
      using navigate_maze_frame[of fuel finish_cell start_cell "[finish_cell]" "(fst st1, [])" res2 st2]
      by (simp add: reverse_search_def clear_loop_id)
    with f1 m' show ?thesis by (auto intro: search_frame_trans)
  qed
qed

lemma find_paths_returns:
  assumes "cell_count maze < fuel"
  shows "find_paths fuel maze start_cell finish_cell \<noteq> None"
proof -
  have u: "unvisited maze < fuel" using unvisited_le_cell_count[of maze] assms by simp
  hence "forward_search fuel maze start_cell finish_cell \<noteq> None"
    unfolding forward_search_def clear_loop_id by (intro navigate_maze_returns) simp
  then obtain res1 st1 where r1: "forward_search fuel maze start_cell finish_cell = Some (res1, st1)"
    by (cases "forward_search fuel maze start_cell finish_cell") auto
  hence "search_frame maze (fst st1)"
    using navigate_maze_frame[of fuel start_cell finish_cell "[start_cell]" "(maze, [])" res1 st1]
    by (simp add: forward_search_def clear_loop_id)
  from search_frame_unvisited[OF this] u have "unvisited (fst st1) < fuel" by simp
  hence "reverse_search fuel (fst st1) start_cell finish_cell \<noteq> None"
    unfolding reverse_search_def clear_loop_id by (intro navigate_maze_returns) simp
  with r1 show ?thesis
    by (auto simp: find_paths_def split: sum.splits prod.splits option.splits)
qed

section \<open>The path that a search returns\<close>

lemma locate_walls: "locate (walls m) rc = locate m rc"
proof (cases "py_index (length m) (fst rc)")
  case (Inl e)
  thus ?thesis by (simp add: locate_def walls_def)
next
  case (Inr i)
  hence "i < length m" by (rule py_index_range)
  with Inr show ?thesis by (simp add: locate_def walls_def)
qed

lemma cell_at_walls:
  assumes "walls m = w" "fst pos < length w" "snd pos < length (w ! fst pos)"
  shows "wall_index (cell_at m pos) = cell_at w pos"
  using assms by (auto simp: walls_def cell_at_def)

lemma locate_walls_range:
  assumes "walls m = w" "locate m rc = Inr pos"
  shows "locate w rc = Inr pos" "fst pos < length w" "snd pos < length (w ! fst pos)"
  using assms locate_range[OF assms(2)] by (auto simp: locate_walls[symmetric] walls_def)

lemma walls_set_cell:
  assumes "wall_index x = wall_index (cell_at m pos)"
  shows "walls (set_cell m pos x) = walls m"
proof -
  have "list_all2 (list_all2 (\<lambda>c c'. wall_index c' = wall_index c)) m (set_cell m pos x)"
    using assms by (intro nested_all2_set_cell) simp_all
  thus ?thesis
    unfolding walls_def by (auto simp: list_all2_conv_all_nth intro!: nth_equalityI)
qed

lemma try_move_flagged:
  assumes "q \<noteq> []" "hd q = sentinel"
  shows "try_move recurse pos wall go next_cell to_cell q s = Some (Inr q, s)"
  using assms by (cases q) (simp_all add: try_move_def)

lemma try_move_shape:
  assumes rec: "\<And>a b c s r s'. recurse a b c s = Some (Inr r, s') \<Longrightarrow> c \<noteq> [] \<Longrightarrow> hd c \<noteq> sentinel \<Longrightarrow>
                  r = c \<or> (\<exists>wk. r = sentinel # c @ wk \<and> walk (walls (fst s)) a b wk)"
    and tm: "try_move recurse pos wall go next_cell to_cell q s = Some (Inr q', s')"
    and q: "q \<noteq> []" "hd q \<noteq> sentinel"
  shows "q' = q \<or> (wall_index (cell_at (fst s) pos) AND wall = 0
                    \<and> (\<exists>wk. q' = sentinel # q @ wk \<and> walk (walls (fst s)) next_cell to_cell wk))"
proof (cases "wall_index (cell_at (fst s) pos) AND wall \<noteq> 0")
  case True
  with tm show ?thesis by (simp add: try_move_def)
next
  case False
  let ?m1 = "set_cell (fst s) pos ((cell_at (fst s) pos)\<lparr>direction := go\<rparr>)"
  from q obtain p0 ps where qq: "q = p0 # ps" "p0 \<noteq> sentinel" by (cases q) auto
  with tm False have "recurse next_cell to_cell q (?m1, snd s) = Some (Inr q', s')"
    by (simp add: try_move_def)
  from rec[OF this q]
  have "q' = q \<or> (\<exists>wk. q' = sentinel # q @ wk \<and> walk (walls ?m1) next_cell to_cell wk)"
    by simp
  moreover have "walls ?m1 = walls (fst s)" by (rule walls_set_cell) simp
  ultimately show ?thesis using False by simp
qed

lemma and_then_rule:
  assumes "and_then r0 g = Some (r, s)"
    and "\<And>r s. r0 = Some (r, s) \<Longrightarrow> I r s"
    and "\<And>e s. I (Inl e) s \<Longrightarrow> I' (Inl e) s"
    and "\<And>q s0 r s. I (Inr q) s0 \<Longrightarrow> g q s0 = Some (r, s) \<Longrightarrow> I' r s"
  shows "I' r s"
  using assms(1)
proof (cases rule: and_then_cases)
  case (raised e)
  with assms(2)[OF raised(1)] assms(3) show ?thesis by simp
next
  case (went_on p s1)
  from assms(4)[OF assms(2)[OF went_on(1)] went_on(2)] show ?thesis .
qed

text \<open>
  An invariant of the four attempts and the recording of the dead end: it holds of
  the result when it holds at the start and every step keeps it.
\<close>

lemma explore_rule:
  assumes ex: "explore recurse pos from_cell to_cell p1 st1 = Some (res, st')"
    and init: "I (Inr p1) st1"
    and step: "\<And>wall go next_cell q s r s'.
        (wall, go, next_cell) \<in> {(wi_left, go_left, (fst from_cell, snd from_cell - 1)),
                                   (wi_top, go_up, (fst from_cell - 1, snd from_cell)),
                                   (wi_right, go_right, (fst from_cell, snd from_cell + 1)),
                                   (wi_bottom, go_down, (fst from_cell + 1, snd from_cell))} \<Longrightarrow>
        I (Inr q) s \<Longrightarrow> try_move recurse pos wall go next_cell to_cell q s = Some (r, s') \<Longrightarrow> I r s'"
    and fin: "\<And>q s r s'. I (Inr q) s \<Longrightarrow> record_dead_end q s = Some (r, s') \<Longrightarrow> J r s'"
    and raised: "\<And>e s. I (Inl e) s \<Longrightarrow> J (Inl e) s"
  shows "J res st'"
proof -
  define c1 where "c1 = try_move recurse pos wi_left go_left (fst from_cell, snd from_cell - 1) to_cell p1 st1"
  define c2 where "c2 = and_then c1 (try_move recurse pos wi_top go_up (fst from_cell - 1, snd from_cell) to_cell)"
  define c3 where "c3 = and_then c2 (try_move recurse pos wi_right go_right (fst from_cell, snd from_cell + 1) to_cell)"
  define c4 where "c4 = and_then c3 (try_move recurse pos wi_bottom go_down (fst from_cell + 1, snd from_cell) to_cell)"
  have i1: "I r s" if "c1 = Some (r, s)" for r s
    using that unfolding c1_def by (intro step[OF _ init]) simp_all
  have i2: "I r s" if "c2 = Some (r, s)" for r s
    using that unfolding c2_def
    by (rule and_then_rule[where I = I]) (erule i1, assumption, erule step[rotated], assumption, simp)
  have i3: "I r s" if "c3 = Some (r, s)" for r s
    using that unfolding c3_def
    by (rule and_then_rule[where I = I]) (erule i2, assumption, erule step[rotated], assumption, simp)
  have i4: "I r s" if "c4 = Some (r, s)" for r s
    using that unfolding c4_def
    by (rule and_then_rule[where I = I]) (erule i3, assumption, erule step[rotated], assumption, simp)
  from ex have "and_then c4 record_dead_end = Some (res, st')"
    by (simp add: explore_def c1_def c2_def c3_def c4_def)
  thus ?thesis
    by (rule and_then_rule[where I = I]) (erule i4, erule raised, erule fin, assumption)
qed

lemma walk_single: "walk w a a [a]"
  by (simp add: walk_def)

lemma walk_Cons:
  assumes "walk w nx b wk" "open_step w a nx"
  shows "walk w a b (a # wk)"
  using assms by (auto simp: walk_def successively_Cons)

lemma open_step_distance: "open_step w a b \<Longrightarrow> calc_distance a b = 1"
  by (auto simp: open_step_def calc_distance_one_iff split: sum.splits)

lemma explore_shape:
  assumes rec: "\<And>a b c s r s'. recurse a b c s = Some (Inr r, s') \<Longrightarrow> c \<noteq> [] \<Longrightarrow> hd c \<noteq> sentinel \<Longrightarrow>
                  r = c \<or> (\<exists>wk. r = sentinel # c @ wk \<and> walk (walls (fst s)) a b wk)"
    and frame: "\<And>a b c s r s'. recurse a b c s = Some (r, s') \<Longrightarrow> search_frame (fst s) (fst s')"
    and ex: "explore recurse pos from_cell to_cell (p @ [from_cell]) st1 = Some (Inr p', st')"
    and p: "p \<noteq> []" "hd p \<noteq> sentinel"
    and loc: "locate (fst st1) from_cell = Inr pos"
  shows "p' = p \<or> (\<exists>wk. p' = sentinel # p @ wk \<and> walk (walls (fst st1)) from_cell to_cell wk)"
proof -
  define W where "W = walls (fst st1)"
  define solved where "solved q = (\<exists>wk. q = sentinel # p @ wk \<and> walk W from_cell to_cell wk)" for q
  define I where "I r s = (walls (fst s) = W \<and> (\<forall>q. r = Inr q \<longrightarrow> q = p @ [from_cell] \<or> solved q))"
    for r :: "error + path" and s :: nav_state
  define J where "J r s = (\<forall>q. r = Inr q \<longrightarrow> q = p \<or> solved q)"
    for r :: "error + path" and s :: nav_state
  note locW = locate_walls_range[OF W_def[symmetric] loc]
  have "J (Inr p') st'"
    using ex
  proof (rule explore_rule[where I = I and J = J])
    show "I (Inr (p @ [from_cell])) st1" by (simp add: I_def W_def)
  next
    fix wall go next_cell q s r s'
    assume dir: "(wall, go, next_cell) \<in> {(wi_left, go_left, (fst from_cell, snd from_cell - 1)),
                                   (wi_top, go_up, (fst from_cell - 1, snd from_cell)),
                                   (wi_right, go_right, (fst from_cell, snd from_cell + 1)),
                                   (wi_bottom, go_down, (fst from_cell + 1, snd from_cell))}"
      and inv: "I (Inr q) s"
      and tm: "try_move recurse pos wall go next_cell to_cell q s = Some (r, s')"
    from inv have Ws: "walls (fst s) = W" and q: "q = p @ [from_cell] \<or> solved q"
      by (simp_all add: I_def)
    have "search_frame (fst s) (fst s')" using frame tm by (rule try_move_frame)
    hence Ws': "walls (fst s') = W" using Ws by (simp add: search_frame_walls)
    have bit: "wall_index (cell_at (fst s) pos) = cell_at W pos"
      using Ws locW(2,3) by (rule cell_at_walls)
    have "q' = p @ [from_cell] \<or> solved q'" if r: "r = Inr q'" for q'
      using q
    proof
      assume qp: "q = p @ [from_cell]"
      hence "q \<noteq> []" "hd q \<noteq> sentinel" using p by simp_all
      from try_move_shape[where recurse = recurse, OF rec tm[unfolded r] this]
      show ?thesis
      proof
        assume "q' = q" with qp show ?thesis by simp
      next
        assume "wall_index (cell_at (fst s) pos) AND wall = 0 \<and>
                (\<exists>wk. q' = sentinel # q @ wk \<and> walk (walls (fst s)) next_cell to_cell wk)"
        then obtain wk where clear: "cell_at W pos AND wall = 0"
          and q': "q' = sentinel # q @ wk" and wk: "walk W next_cell to_cell wk"
          using bit Ws by auto
        from dir clear locW(1) have "open_step W from_cell next_cell"
          by (auto simp: open_step_def)
        with wk have "walk W from_cell to_cell (from_cell # wk)" by (rule walk_Cons)
        moreover have "q' = sentinel # p @ (from_cell # wk)" using q' qp by simp
        ultimately show ?thesis unfolding solved_def by blast
      qed
    next
      assume sq: "solved q"
      hence "q \<noteq> []" "hd q = sentinel" by (auto simp: solved_def)
      from try_move_flagged[OF this] tm r have "q' = q" by simp
      with sq show ?thesis by simp
    qed
    with Ws' show "I r s'" by (simp add: I_def)
  next
    fix q s r s'
    assume inv: "I (Inr q) s" and rd: "record_dead_end q s = Some (r, s')"
    from inv have q: "q = p @ [from_cell] \<or> solved q" by (simp add: I_def)
    thus "J r s'"
    proof
      assume "q = p @ [from_cell]"
      with p rd show ?thesis by (cases p) (auto simp: record_dead_end_def J_def)
    next
      assume sq: "solved q"
      then obtain wk where "q = sentinel # p @ wk" by (auto simp: solved_def)
      with rd sq show ?thesis by (auto simp: record_dead_end_def J_def)
    qed
  next
    fix e s assume "I (Inl e) s" thus "J (Inl e) s" by (simp add: J_def)
  qed
  thus ?thesis by (simp add: J_def solved_def W_def)
qed

lemma navigate_body_shape:
  assumes rec: "\<And>a b c s r s'. recurse a b c s = Some (Inr r, s') \<Longrightarrow> c \<noteq> [] \<Longrightarrow> hd c \<noteq> sentinel \<Longrightarrow>
                  r = c \<or> (\<exists>wk. r = sentinel # c @ wk \<and> walk (walls (fst s)) a b wk)"
    and frame: "\<And>a b c s r s'. recurse a b c s = Some (r, s') \<Longrightarrow> search_frame (fst s) (fst s')"
    and body: "navigate_body recurse from_cell to_cell p st = Some (Inr p', st')"
  shows "p' = p \<or> (\<exists>wk. p' = sentinel # p @ wk \<and> walk (walls (fst st)) from_cell to_cell wk)"
proof (cases rule: navigate_body_cases[of from_cell to_cell p st])
  case goal
  with body have "p' = sentinel # p @ [from_cell]" by simp
  moreover have "walk (walls (fst st)) from_cell to_cell [from_cell]"
    using goal(1) by (simp add: walk_def)
  ultimately show ?thesis by blast
next
  case (explore pos)
  let ?c = "(cell_at (fst st) pos)\<lparr>visited := True\<rparr>"
  let ?st1 = "(set_cell (fst st) pos ?c, snd st)"
  have w: "walls (fst ?st1) = walls (fst st)" by (simp add: walls_set_cell)
  have "locate (fst ?st1) from_cell = locate (fst st) from_cell"
    using w by (metis locate_walls)
  hence loc: "locate (fst ?st1) from_cell = Inr pos" using explore(2) by simp
  from body explore(6)
  have "explore recurse pos from_cell to_cell (p @ [from_cell]) ?st1 = Some (Inr p', st')" by simp
  from explore_shape[where recurse = recurse, OF rec frame this explore(4,5) loc] w
  show ?thesis by simp
qed (use body in auto)

lemma navigate_maze_shape:
  "navigate_maze fuel from_cell to_cell p st = Some (Inr p', st') \<Longrightarrow>
     p' = p \<or> (\<exists>wk. p' = sentinel # p @ wk \<and> walk (walls (fst st)) from_cell to_cell wk)"
proof (induction fuel arbitrary: from_cell to_cell p st p' st')
  case 0
  thus ?case by simp
next
  case (Suc fuel)
  from Suc.prems
  have "navigate_body (navigate_maze fuel) from_cell to_cell p st = Some (Inr p', st')" by simp
  thus ?case
  proof (rule navigate_body_shape[where recurse = "navigate_maze fuel", rotated 2])
    show "r = c \<or> (\<exists>wk. r = sentinel # c @ wk \<and> walk (walls (fst s)) a b wk)"
      if "navigate_maze fuel a b c s = Some (Inr r, s')" for a b c s r s'
      using that by (rule Suc.IH)
    show "search_frame (fst s) (fst s')" if "navigate_maze fuel a b c s = Some (r, s')" for a b c s r s'
      using that by (rule navigate_maze_frame)
  qed
qed

lemma apply_at_walls:
  assumes "\<And>c. wall_index (f c) = wall_index c" and "apply_at Maze rc f = Inr Maze'"
  shows "walls Maze' = walls Maze"
  using assms(2)
  by (auto simp: apply_at_def bind_err_def assms(1) walls_set_cell split: sum.splits)

lemma wall_index_set_direction [simp]: "wall_index (set_direction c d) = wall_index c"
  by (simp add: set_direction_def)

lemma wall_index_set_as_start [simp]: "wall_index (set_as_start c) = wall_index c"
  by (simp add: set_as_start_def)

lemma wall_index_set_as_finish [simp]: "wall_index (set_as_finish c b) = wall_index c"
  by (simp add: set_as_finish_def Let_def)

lemma find_paths_solution:
  assumes "find_paths fuel maze start_cell finish_cell = Some (Inr (Solution p), maze')"
  shows "\<exists>wk. p = sentinel # start_cell # wk \<and> walk (walls maze) start_cell finish_cell wk"
proof -
  from assms obtain st1 where
    fw: "forward_search fuel maze start_cell finish_cell = Some (Inr p, st1)" and len: "length p > 1"
    by (auto simp: find_paths_def split: option.splits sum.splits prod.splits if_splits)
  from fw have "navigate_maze fuel start_cell finish_cell [start_cell] (maze, []) = Some (Inr p, st1)"
    by (simp add: forward_search_def clear_loop_id)
  from navigate_maze_shape[OF this] len show ?thesis by auto
qed

lemma solve_maze_Solved:
  assumes "solve_maze enum fuel Maze start_cell finish_cell = Some (Inr (Solved path, Maze'))"
  shows "\<exists>wk. path = start_cell # wk \<and> walk (walls Maze) start_cell finish_cell wk"
proof -
  from assms obtain Maze1 where m1: "apply_at Maze start_cell set_as_start = Inr Maze1"
    by (auto simp: solve_maze_def split: sum.splits)
  with assms obtain Maze2 where m2: "apply_at Maze1 finish_cell (\<lambda>c. set_as_finish c False) = Inr Maze2"
    by (auto simp: solve_maze_def split: sum.splits)
  have w: "walls Maze2 = walls Maze"
    using apply_at_walls[OF _ m1] apply_at_walls[OF _ m2] by simp
  from assms m1 m2 obtain p Maze3 where
    fp: "find_paths fuel Maze2 start_cell finish_cell = Some (Inr (Solution p), Maze3)"
    and p: "p = sentinel # path"
    by (auto simp: solve_maze_def bind_err_def
             split: option.splits sum.splits prod.splits found.splits list.splits if_splits)
  from find_paths_solution[OF fp] p w show ?thesis by auto
qed

section \<open>The claims about the search\<close>

text \<open>
  C9.  On every maze and for every origin, destination and path, \<open>navigate_maze\<close>
  returns: a depth of recursion above the number of cells is never reached, so the
  result is the same for every larger bound.  A visited flag is only ever set: every
  cell visited before the call is visited after it.
\<close>

theorem navigate_maze_terminates:
  assumes "cell_count maze < fuel"
  shows "\<exists>res maze' all_paths'.
           (\<forall>k. navigate_maze (fuel + k) from_cell to_cell maze_path (maze, all_paths)
                  = Some (res, (maze', all_paths')))
           \<and> keeps_visited maze maze'"
proof -
  have "unvisited (fst (maze, all_paths)) < fuel"
    using unvisited_le_cell_count[of maze] assms by simp
  hence "navigate_maze fuel from_cell to_cell maze_path (maze, all_paths) \<noteq> None"
    by (rule navigate_maze_returns)
  then obtain res maze' all_paths' where
    r: "navigate_maze fuel from_cell to_cell maze_path (maze, all_paths)
          = Some (res, (maze', all_paths'))"
    by (cases "navigate_maze fuel from_cell to_cell maze_path (maze, all_paths)") auto
  from navigate_maze_frame[OF r] have "keeps_visited maze maze'"
    by (simp add: search_frame_keeps_visited)
  with navigate_maze_more_fuel[OF r] show ?thesis by blast
qed

theorem navigate_maze_terminates_witness:
  "cell_count corridor < 3
   \<and> (\<exists>res maze' all_paths'.
         (\<forall>k. navigate_maze (3 + k) (0, 0) (0, 1) [(0, 0)] (corridor, [])
                = Some (res, (maze', all_paths')))
         \<and> keeps_visited corridor maze')"
proof -
  have h: "cell_count corridor < 3" by (simp add: cell_count_def corridor_def)
  from navigate_maze_terminates[OF h] h show ?thesis by blast
qed

text \<open>
  C10.  \<open>navigate_maze\<close> and \<open>find_paths\<close> leave the wall mask of every cell as it
  was, whether they return a path or raise; with a depth bound above the number of
  cells both return.
\<close>

theorem search_leaves_walls_unchanged:
  "(navigate_maze fuel from_cell to_cell maze_path (maze, all_paths)
      = Some (res, (maze1, all_paths1)) \<longrightarrow> walls maze1 = walls maze)
   \<and> (find_paths fuel maze start_cell finish_cell = Some (found, maze2)
        \<longrightarrow> walls maze2 = walls maze)
   \<and> (cell_count maze < fuel \<longrightarrow>
        (\<exists>r m ap. navigate_maze fuel from_cell to_cell maze_path (maze, all_paths)
                     = Some (r, (m, ap)) \<and> walls m = walls maze)
        \<and> (\<exists>r m. find_paths fuel maze start_cell finish_cell = Some (r, m)
                   \<and> walls m = walls maze))"
proof (intro conjI impI)
  assume "navigate_maze fuel from_cell to_cell maze_path (maze, all_paths)
            = Some (res, (maze1, all_paths1))"
  from navigate_maze_frame[OF this] show "walls maze1 = walls maze"
    by (simp add: search_frame_walls)
next
  assume "find_paths fuel maze start_cell finish_cell = Some (found, maze2)"
  from find_paths_frame[OF this] show "walls maze2 = walls maze"
    by (rule search_frame_walls)
next
  assume less: "cell_count maze < fuel"
  hence "unvisited (fst (maze, all_paths)) < fuel"
    using unvisited_le_cell_count[of maze] by simp
  hence "navigate_maze fuel from_cell to_cell maze_path (maze, all_paths) \<noteq> None"
    by (rule navigate_maze_returns)
  then obtain r m ap where
    r: "navigate_maze fuel from_cell to_cell maze_path (maze, all_paths) = Some (r, (m, ap))"
    by (cases "navigate_maze fuel from_cell to_cell maze_path (maze, all_paths)") auto
  from navigate_maze_frame[OF r] have "walls m = walls maze"
    by (simp add: search_frame_walls)
  with r show "\<exists>r m ap. navigate_maze fuel from_cell to_cell maze_path (maze, all_paths)
                     = Some (r, (m, ap)) \<and> walls m = walls maze"
    by blast
next
  assume "cell_count maze < fuel"
  from find_paths_returns[OF this, of start_cell finish_cell] obtain r m where
    r: "find_paths fuel maze start_cell finish_cell = Some (r, m)"
    by (cases "find_paths fuel maze start_cell finish_cell") auto
  from find_paths_frame[OF r] have "walls m = walls maze" by (rule search_frame_walls)
  with r show "\<exists>r m. find_paths fuel maze start_cell finish_cell = Some (r, m)
                   \<and> walls m = walls maze"
    by blast
qed

theorem search_leaves_walls_unchanged_witness:
  "cell_count corridor < 3
   \<and> navigate_maze 3 (0, 0) (0, 1) [(0, 0)] (corridor, []) =
       Some (Inr [(- 1, - 1), (0, 0), (0, 0), (0, 1)],
             ([[\<lparr>wall_index = 11, display_index = 0, visited = True, direction = 256\<rparr>,
                \<lparr>wall_index = 14, display_index = 0, visited = False, direction = 0\<rparr>]], []))
   \<and> walls [[\<lparr>wall_index = 11, display_index = 0, visited = True, direction = 256\<rparr>,
              \<lparr>wall_index = 14, display_index = 0, visited = False, direction = 0\<rparr>]]
       = walls corridor
   \<and> find_paths 3 blocked (0, 0) (0, 1) =
       Some (Inr (DeadEnds [[(0, 0), (0, 0)]] [[(0, 1), (0, 1)]]),
             [[\<lparr>wall_index = 15, display_index = 4, visited = True, direction = 0\<rparr>,
               \<lparr>wall_index = 15, display_index = 0, visited = True, direction = 0\<rparr>]])
   \<and> walls [[\<lparr>wall_index = 15, display_index = 4, visited = True, direction = 0\<rparr>,
              \<lparr>wall_index = 15, display_index = 0, visited = True, direction = 0\<rparr>]]
       = walls blocked"
proof -
  have h: "cell_count corridor < 3" by (simp add: cell_count_def corridor_def)
  have n: "navigate_maze 3 (0, 0) (0, 1) [(0, 0)] (corridor, []) =
       Some (Inr [(- 1, - 1), (0, 0), (0, 0), (0, 1)],
             ([[\<lparr>wall_index = 11, display_index = 0, visited = True, direction = 256\<rparr>,
                \<lparr>wall_index = 14, display_index = 0, visited = False, direction = 0\<rparr>]], []))"
    by code_simp
  have f: "find_paths 3 blocked (0, 0) (0, 1) =
       Some (Inr (DeadEnds [[(0, 0), (0, 0)]] [[(0, 1), (0, 1)]]),
             [[\<lparr>wall_index = 15, display_index = 4, visited = True, direction = 0\<rparr>,
               \<lparr>wall_index = 15, display_index = 0, visited = True, direction = 0\<rparr>]])"
    by code_simp
  from search_leaves_walls_unchanged
         [of 3 "(0, 0)" "(0, 1)" "[(0, 0)]" corridor "[]" _ _ _ "(0, 0)" "(0, 1)"] n
  have w1: "walls [[\<lparr>wall_index = 11, display_index = 0, visited = True, direction = 256\<rparr>,
              \<lparr>wall_index = 14, display_index = 0, visited = False, direction = 0\<rparr>]]
       = walls corridor"
    by blast
  from search_leaves_walls_unchanged
         [of 3 "(0, 0)" "(0, 1)" "[(0, 0)]" blocked "[]" _ _ _ "(0, 0)" "(0, 1)"] f
  have w2: "walls [[\<lparr>wall_index = 15, display_index = 4, visited = True, direction = 0\<rparr>,
              \<lparr>wall_index = 15, display_index = 0, visited = True, direction = 0\<rparr>]]
       = walls blocked"
    by blast
  from h n f w1 w2 show ?thesis by blast
qed

text \<open>
  C1 on the code.  On the one-row maze with a wall between its two cells the search
  from \<open>(0, 0)\<close> finds no way to \<open>(0, 1)\<close> and leaves \<open>(0, 0)\<close> visited; the
  clearing loop changes nothing, and the search from the finish cell is started on
  cells of which one is still visited.
\<close>

theorem reverse_search_starts_with_visited_cell:
  "create_maze [[4, 0]] = Inr blocked
   \<and> forward_search 3 blocked (0, 0) (0, 1) =
       Some (Inr [(0, 0)],
         ([[\<lparr>wall_index = 15, display_index = 4, visited = True, direction = 0\<rparr>,
            \<lparr>wall_index = 15, display_index = 0, visited = False, direction = 0\<rparr>]],
          [[(0, 0), (0, 0)]]))
   \<and> reverse_search 3
         [[\<lparr>wall_index = 15, display_index = 4, visited = True, direction = 0\<rparr>,
           \<lparr>wall_index = 15, display_index = 0, visited = False, direction = 0\<rparr>]] (0, 0) (0, 1)
       = navigate_maze 3 (0, 1) (0, 0) [(0, 1)]
           ([[\<lparr>wall_index = 15, display_index = 4, visited = True, direction = 0\<rparr>,
              \<lparr>wall_index = 15, display_index = 0, visited = False, direction = 0\<rparr>]], [])
   \<and> visited (cell_at (clear_loop
         [[\<lparr>wall_index = 15, display_index = 4, visited = True, direction = 0\<rparr>,
           \<lparr>wall_index = 15, display_index = 0, visited = False, direction = 0\<rparr>]]) (0, 0))"
proof (intro conjI)
  show "create_maze [[4, 0]] = Inr blocked" by code_simp
  show "forward_search 3 blocked (0, 0) (0, 1) =
       Some (Inr [(0, 0)],
         ([[\<lparr>wall_index = 15, display_index = 4, visited = True, direction = 0\<rparr>,
            \<lparr>wall_index = 15, display_index = 0, visited = False, direction = 0\<rparr>]],
          [[(0, 0), (0, 0)]]))"
    by code_simp
  show "reverse_search 3
         [[\<lparr>wall_index = 15, display_index = 4, visited = True, direction = 0\<rparr>,
           \<lparr>wall_index = 15, display_index = 0, visited = False, direction = 0\<rparr>]] (0, 0) (0, 1)
       = navigate_maze 3 (0, 1) (0, 0) [(0, 1)]
           ([[\<lparr>wall_index = 15, display_index = 4, visited = True, direction = 0\<rparr>,
              \<lparr>wall_index = 15, display_index = 0, visited = False, direction = 0\<rparr>]], [])"
    by (simp only: reverse_search_def clear_loop_id)
  show "visited (cell_at (clear_loop
         [[\<lparr>wall_index = 15, display_index = 4, visited = True, direction = 0\<rparr>,
           \<lparr>wall_index = 15, display_index = 0, visited = False, direction = 0\<rparr>]]) (0, 0))"
    by code_simp
qed

text \<open>
  The same loop stands at the head of \<open>find_paths\<close>: solving the open two by two
  maze a second time, on the cells the first run left, finds the start cell visited,
  returns no dead end from the start, and \<open>from_start[0]\<close> raises.
\<close>

lemma second_solve_raises:
  "solve_maze remdups 5
     [[\<lparr>wall_index = 3, display_index = 1280, visited = True, direction = 256\<rparr>,
       \<lparr>wall_index = 6, display_index = 512, visited = True, direction = 512\<rparr>],
      [\<lparr>wall_index = 9, display_index = 0, visited = False, direction = 0\<rparr>,
       \<lparr>wall_index = 12, display_index = 2080, visited = False, direction = 0\<rparr>]] (0, 0) (1, 1)
   = Some (Inl IndexError)"
  by code_simp

section \<open>The claims about the scanner and the suggestions\<close>

text \<open>
  C5 on the code.  The run of wall pixels 30 to 33, with cells 17 pixels wide, gets
  boundary index 2 when a white pixel closes it and boundary index 1 when the scan
  line ends with it: the right wall is recorded on column 1 in the first image and on
  column 0 in the second.  The same holds of a vertical scan line.
\<close>

theorem open_run_gets_another_boundary:
  "cindex_closed [30, 31, 32, 33] 17 = Inr 2
   \<and> cindex_open [30, 31, 32, 33] 17 = Inr 1
   \<and> read_maze_file [replicate 30 255 @ replicate 4 0 @ [255]] 2 1 = Inr [[0, 4]]
   \<and> read_maze_file [replicate 30 255 @ replicate 4 0] 2 1 = Inr [[4, 0]]
   \<and> read_maze_file (map (\<lambda>px. [px]) (replicate 30 255 @ replicate 4 0 @ [255])) 1 2
       = Inr [[0], [8]]
   \<and> read_maze_file (map (\<lambda>px. [px]) (replicate 30 255 @ replicate 4 0)) 1 2
       = Inr [[8], [0]]"
  by (intro conjI; code_simp)

text \<open>
  C6 on the code.  The list returned is the enumeration of the set as it comes:
  \<open>coordinates.sort\<close> is not a call.  On the maze of two rooms the dead ends of both
  searches give the suggestions \<open>(0, 0, 8)\<close> and \<open>(0, 1, 8)\<close>; enumerated with the
  last occurrence first, as CPython 3.11 enumerates this set, the result is not in
  ascending order.  It has no duplicates.
\<close>

theorem suggestions_not_sorted:
  "find_paths 5 two_rooms (0, 0) (1, 0) =
     Some (Inr (DeadEnds [[(0, 0), (0, 0), (0, 1)], [(0, 0), (0, 0)]]
                         [[(1, 0), (1, 0), (1, 1)], [(1, 0), (1, 0)]]),
       [[\<lparr>wall_index = 11, display_index = 8, visited = True, direction = 256\<rparr>,
         \<lparr>wall_index = 14, display_index = 8, visited = True, direction = 64\<rparr>],
        [\<lparr>wall_index = 11, display_index = 0, visited = True, direction = 256\<rparr>,
         \<lparr>wall_index = 14, display_index = 0, visited = True, direction = 64\<rparr>]])
   \<and> set_enumeration remdups
   \<and> find_suggestions remdups [[(0, 0), (0, 0), (0, 1)], [(0, 0), (0, 0)]]
                               [[(1, 0), (1, 0), (1, 1)], [(1, 0), (1, 0)]]
       = Inr [(0, 1, 8), (0, 0, 8)]
   \<and> \<not> sorted [(0::int, 1::int, 8::int), (0, 0, 8)]
   \<and> distinct [(0::int, 1::int, 8::int), (0, 0, 8)]"
proof (intro conjI)
  show "set_enumeration remdups" by (simp add: set_enumeration_def)
qed code_simp+

lemma find_suggestions_distinct:
  "set_enumeration enum \<Longrightarrow> find_suggestions enum from_start from_finish = Inr cs \<Longrightarrow>
     distinct cs"
  by (auto simp: find_suggestions_def set_enumeration_def split: sum.splits)

section \<open>The walls that create_maze builds\<close>

lemma for_each_append:
  "for_each (xs @ ys) body s = bind_err (for_each xs body s) (for_each ys body)"
  by (induction xs arbitrary: s) (auto simp: bind_err_def split: sum.splits)

lemma for_each_upt_rule:
  assumes "P 0 s"
    and "\<And>i s. i < n \<Longrightarrow> P i s \<Longrightarrow> \<exists>s'. body i s = Inr s' \<and> P (Suc i) s'"
  shows "\<exists>s'. for_each [0 ..< n] body s = Inr s' \<and> P n s'"
  using assms(2)
proof (induction n)
  case 0
  with assms(1) show ?case by simp
next
  case (Suc n)
  have "\<exists>s'. for_each [0 ..< n] body s = Inr s' \<and> P n s'"
    by (rule Suc.IH) (simp add: Suc.prems)
  then obtain s1 where s1: "for_each [0 ..< n] body s = Inr s1" "P n s1" by blast
  from Suc.prems[of n s1] s1(2) obtain s2 where "body n s1 = Inr s2" "P (Suc n) s2" by auto
  with s1 show ?case by (simp add: for_each_append bind_err_def)
qed

lemma has_shape_row: "has_shape arr h w \<Longrightarrow> r < h \<Longrightarrow> length (arr ! r) = w"
  by (simp add: has_shape_def list_all_length)

lemma locate_in:
  assumes "has_shape arr h w" "r < h" "c < w"
  shows "locate arr (int r, int c) = Inr (r, c)"
  using assms has_shape_row[OF assms(1,2)]
  by (simp add: locate_def py_index_def has_shape_def)

lemma has_shape_set_cell:
  assumes "has_shape arr h w"
  shows "has_shape (set_cell arr pos x) h w"
proof -
  have "length ((set_cell arr pos x) ! n) = w" if "n < length arr" for n
    using that assms
    by (cases "n = fst pos") (simp_all add: set_cell_def has_shape_def list_all_length)
  with assms show ?thesis by (simp add: has_shape_def list_all_length set_cell_def)
qed

lemma maze_walls_are_cong:
  assumes "maze_walls_are h w F m" "\<And>r c. r < h \<Longrightarrow> c < w \<Longrightarrow> F r c = F' r c"
  shows "maze_walls_are h w F' m"
  using assms by (simp add: maze_walls_are_def)

lemma wall_at_in:
  assumes "maze_walls_are h w F m" "r < h" "c < w"
  shows "wall_at m (int r, int c) = Inr (F r c)"
  using assms
  by (simp add: wall_at_def bind_err_def maze_walls_are_def locate_in[of m h w] cell_at_def)

lemma add_wall_at_in:
  assumes m: "maze_walls_are h w F m" and rc: "r < h" "c < w" and wi: "wi \<le> 16"
  shows "\<exists>m'. add_wall_at m (int r, int c) wi = Inr m' \<and>
           maze_walls_are h w (\<lambda>r' c'. if r' = r \<and> c' = c then F r c OR wi else F r' c') m'"
proof -
  from m have sh: "has_shape m h w" by (simp add: maze_walls_are_def)
  let ?x = "(cell_at m (r, c))\<lparr>wall_index := wall_index (cell_at m (r, c)) OR wi\<rparr>"
  have eq: "add_wall_at m (int r, int c) wi = Inr (set_cell m (r, c) ?x)"
    using wi by (simp add: add_wall_at_def bind_err_def locate_in[OF sh rc] add_wall_def)
  have "maze_walls_are h w (\<lambda>r' c'. if r' = r \<and> c' = c then F r c OR wi else F r' c')
          (set_cell m (r, c) ?x)"
    unfolding maze_walls_are_def
  proof (intro conjI allI impI)
    show "has_shape (set_cell m (r, c) ?x) h w" using sh by (rule has_shape_set_cell)
  next
    fix r' c' assume "r' < h" "c' < w"
    with m rc sh has_shape_row[OF sh, of r'] has_shape_row[OF sh, of r]
    show "wall_index (set_cell m (r, c) ?x ! r' ! c')
            = (if r' = r \<and> c' = c then F r c OR wi else F r' c')"
      by (auto simp: maze_walls_are_def set_cell_def cell_at_def nth_list_update has_shape_def)
  qed
  with eq show ?thesis by blast
qed

lemma or_bit_absorb:
  fixes x :: int
  assumes "x AND 2 ^ n \<noteq> 0"
  shows "x OR 2 ^ n = x"
proof -
  from assms have "bit x n" by (simp add: and_exp_eq_0_iff_not_bit)
  thus ?thesis by (intro bit_eqI) (auto simp: bit_or_iff bit_exp_iff)
qed

lemma or_wall_absorb:
  fixes x :: int
  assumes "wi \<in> {1, 2, 4, 8}" "x AND wi \<noteq> 0"
  shows "x OR wi = x"
  using assms or_bit_absorb[of x 0] or_bit_absorb[of x 1] or_bit_absorb[of x 2] or_bit_absorb[of x 3]
  by auto

lemma seal_in:
  assumes m: "maze_walls_are h w F m" and rc: "r < h" "c < w" and wi: "wi \<in> {1, 2, 4, 8}"
  shows "\<exists>m'. seal (int r, int c) wi m = Inr m' \<and>
           maze_walls_are h w (\<lambda>r' c'. if r' = r \<and> c' = c then F r c OR wi else F r' c') m'"
proof (cases "F r c AND wi = 0")
  case True
  from wi have "wi \<le> 16" by auto
  from add_wall_at_in[OF m rc this] True show ?thesis
    by (simp add: seal_def bind_err_def wall_at_in[OF m rc])
next
  case False
  hence "F r c OR wi = F r c" using wi by (intro or_wall_absorb) auto
  hence "maze_walls_are h w (\<lambda>r' c'. if r' = r \<and> c' = c then F r c OR wi else F r' c') m"
    using m by (intro maze_walls_are_cong[OF m]) auto
  with False show ?thesis
    by (simp add: seal_def bind_err_def wall_at_in[OF m rc])
qed

lemma has_wall_or: "has_wall (x OR y) flag = (has_wall x flag \<or> has_wall y flag)"
  by (simp add: has_wall_def bit.conj_disj_distrib2 or_eq_0_iff)

lemma has_wall_propagated [simp]:
  "\<not> has_wall (propagated grid r c) 8" "\<not> has_wall (propagated grid r c) 4"
  by (simp_all add: has_wall_def propagated_def)

lemma propagate_in:
  assumes m: "maze_walls_are h w F m" and rc: "r < h" "c < w"
  shows "\<exists>m'. propagate r c m = Inr m' \<and>
           maze_walls_are h w
             (\<lambda>r' c'. if r' = r \<and> c' = c
                then F r c OR (if 0 < r \<and> has_wall (F (r - 1) c) wi_bottom then wi_top else 0)
                           OR (if 0 < c \<and> has_wall (F r (c - 1)) wi_right then wi_left else 0)
                else F r' c') m'"
proof -
  define t where "t = (if 0 < r \<and> has_wall (F (r - 1) c) wi_bottom then wi_top else 0)"
  define l where "l = (if 0 < c \<and> has_wall (F r (c - 1)) wi_right then wi_left else 0)"
  define F1 where "F1 = (\<lambda>r' c'. if r' = r \<and> c' = c then F r c OR t else F r' c')"
  define step1 where "step1 =
       (if r > 0 then
          bind_err (wall_at m (int r - 1, int c)) (\<lambda>above_wall.
            if above_wall AND wi_bottom \<noteq> 0 then add_wall_at m (int r, int c) wi_top
            else Inr m)
        else Inr m)"
  have same: "maze_walls_are h w F1 m" if "t = 0"
    using that by (intro maze_walls_are_cong[OF m]) (simp add: F1_def)
  have s1: "\<exists>m1. step1 = Inr m1 \<and> maze_walls_are h w F1 m1"
  proof (cases "0 < r \<and> has_wall (F (r - 1) c) wi_bottom")
    case True
    have rd: "wall_at m (int r - 1, int c) = Inr (F (r - 1) c)"
      using wall_at_in[of h w F m "r - 1" c] m rc True by simp
    have tv: "t = wi_top" using True by (simp add: t_def)
    obtain m1 where a: "add_wall_at m (int r, int c) wi_top = Inr m1"
      and b0: "maze_walls_are h w
                 (\<lambda>r' c'. if r' = r \<and> c' = c then F r c OR wi_top else F r' c') m1"
      using add_wall_at_in[OF m rc, of wi_top] by auto
    have b: "maze_walls_are h w F1 m1" unfolding F1_def tv by (rule b0)
    have "step1 = Inr m1"
      using True a by (simp add: step1_def rd bind_err_def has_wall_def)
    with b show ?thesis by blast
  next
    case False
    hence t0: "t = 0" by (simp add: t_def)
    have "step1 = Inr m"
    proof (cases "0 < r")
      case True
      have rd: "wall_at m (int r - 1, int c) = Inr (F (r - 1) c)"
        using wall_at_in[of h w F m "r - 1" c] m rc True by simp
      show ?thesis using False True
        by (simp add: step1_def rd bind_err_def has_wall_def)
    qed (simp add: step1_def)
    with same[OF t0] show ?thesis by blast
  qed
  then obtain m1 where m1: "step1 = Inr m1" "maze_walls_are h w F1 m1" by blast
  define step2 where "step2 =
       (if c > 0 then
            bind_err (wall_at m1 (int r, int c - 1)) (\<lambda>left_wall.
              if left_wall AND wi_right \<noteq> 0 then add_wall_at m1 (int r, int c) wi_left
              else Inr m1)
          else Inr m1)"
  define F2 where "F2 = (\<lambda>r' c'. if r' = r \<and> c' = c then F1 r c OR l else F1 r' c')"
  have F1l: "F1 r (c - 1) = F r (c - 1)" if "0 < c"
  proof -
    from that have "c - 1 \<noteq> c" by arith
    thus ?thesis by (simp add: F1_def)
  qed
  have s2: "\<exists>m2. step2 = Inr m2 \<and> maze_walls_are h w F2 m2"
  proof (cases "0 < c \<and> has_wall (F r (c - 1)) wi_right")
    case True
    have rd: "wall_at m1 (int r, int c - 1) = Inr (F r (c - 1))"
      using wall_at_in[of h w F1 m1 r "c - 1"] m1(2) rc F1l True by simp
    have lv: "l = wi_left" using True by (simp add: l_def)
    obtain m2 where a: "add_wall_at m1 (int r, int c) wi_left = Inr m2"
      and b0: "maze_walls_are h w
                 (\<lambda>r' c'. if r' = r \<and> c' = c then F1 r c OR wi_left else F1 r' c') m2"
      using add_wall_at_in[OF m1(2) rc, of wi_left] by auto
    have b: "maze_walls_are h w F2 m2" unfolding F2_def lv by (rule b0)
    have "step2 = Inr m2"
      using True a by (simp add: step2_def rd bind_err_def has_wall_def)
    with b show ?thesis by blast
  next
    case False
    hence l0: "l = 0" by (simp add: l_def)
    have "step2 = Inr m1"
    proof (cases "0 < c")
      case True
      have rd: "wall_at m1 (int r, int c - 1) = Inr (F r (c - 1))"
        using wall_at_in[of h w F1 m1 r "c - 1"] m1(2) rc F1l True by simp
      show ?thesis using False True
        by (simp add: step2_def rd bind_err_def has_wall_def)
    qed (simp add: step2_def)
    moreover have "maze_walls_are h w F2 m1"
      using l0 by (intro maze_walls_are_cong[OF m1(2)]) (simp add: F2_def)
    ultimately show ?thesis by blast
  qed
  then obtain m2 where m2: "step2 = Inr m2" "maze_walls_are h w F2 m2" by blast
  have "propagate r c m = Inr m2"
    using m1(1) m2(1) by (simp add: propagate_def step1_def step2_def bind_err_def)
  moreover have "maze_walls_are h w
             (\<lambda>r' c'. if r' = r \<and> c' = c then F r c OR t OR l else F r' c') m2"
    by (intro maze_walls_are_cong[OF m2(2)]) (simp add: F2_def F1_def or.assoc)
  ultimately show ?thesis unfolding t_def l_def by blast
qed

lemma map_err_mzCell:
  assumes "list_all (\<lambda>e. e \<le> 4095) row"
  shows "\<exists>cells. map_err mzCell row = Inr cells \<and> length cells = length row \<and>
           (\<forall>c<length row. wall_index (cells ! c) = row ! c)"
  using assms
proof (induction row)
  case Nil
  show ?case by simp
next
  case (Cons e row)
  then obtain cells where c: "map_err mzCell row = Inr cells" "length cells = length row"
    "\<forall>c<length row. wall_index (cells ! c) = row ! c" by auto
  from Cons.prems have "mzCell e =
      Inr \<lparr>wall_index = e, display_index = e, visited = False, direction = go_none\<rparr>"
    by (simp add: mzCell_def)
  with c show ?case by (auto simp: nth_Cons split: nat.splits)
qed

lemma map_err_rows:
  assumes "list_all (list_all (\<lambda>e. e \<le> 4095)) grid"
  shows "\<exists>m. map_err (map_err mzCell) grid = Inr m \<and> length m = length grid \<and>
           (\<forall>r<length grid. length (m ! r) = length (grid ! r) \<and>
              (\<forall>c<length (grid ! r). wall_index (m ! r ! c) = grid ! r ! c))"
  using assms
proof (induction grid)
  case Nil
  show ?case by simp
next
  case (Cons row grid)
  then obtain m where m: "map_err (map_err mzCell) grid = Inr m" "length m = length grid"
    "\<forall>r<length grid. length (m ! r) = length (grid ! r) \<and>
        (\<forall>c<length (grid ! r). wall_index (m ! r ! c) = grid ! r ! c)" by auto
  from Cons.prems have "list_all (\<lambda>e. e \<le> 4095) row" by simp
  from map_err_mzCell[OF this] obtain cells where
    c: "map_err mzCell row = Inr cells" "length cells = length row"
    "\<forall>c<length row. wall_index (cells ! c) = row ! c" by auto
  have "map_err (map_err mzCell) (row # grid) = Inr (cells # m)" using c(1) m(1) by simp
  moreover have "\<forall>r<length (row # grid). length ((cells # m) ! r) = length ((row # grid) ! r) \<and>
              (\<forall>c<length ((row # grid) ! r). wall_index ((cells # m) ! r ! c) = (row # grid) ! r ! c)"
    using c(2,3) m(2,3) by (auto simp: nth_Cons split: nat.splits)
  ultimately show ?case using m(2) by auto
qed

lemma cells_of_grid:
  assumes "accepted_grid h w grid"
  shows "\<exists>m. map_err (map_err mzCell) grid = Inr m \<and>
           maze_walls_are h w (\<lambda>r c. grid ! r ! c) m"
proof -
  from assms have sh: "has_shape grid h w" and ok: "list_all (list_all (\<lambda>e. e \<le> 4095)) grid"
    by (simp_all add: accepted_grid_def)
  from map_err_rows[OF ok] obtain m where m: "map_err (map_err mzCell) grid = Inr m"
    "length m = length grid"
    "\<forall>r<length grid. length (m ! r) = length (grid ! r) \<and>
        (\<forall>c<length (grid ! r). wall_index (m ! r ! c) = grid ! r ! c)" by auto
  have "maze_walls_are h w (\<lambda>r c. grid ! r ! c) m"
    using m(2,3) sh has_shape_row[OF sh]
    by (auto simp: maze_walls_are_def has_shape_def list_all_length)
  with m(1) show ?thesis by blast
qed

lemma propagate_row:
  fixes grid :: grid
  defines "G \<equiv> \<lambda>r c. grid ! r ! c"
  defines "B \<equiv> \<lambda>r c. grid ! r ! c OR propagated grid r c"
  assumes m: "maze_walls_are h w (\<lambda>r' c'. if r' < r then B r' c' else G r' c') m" and r: "r < h"
  shows "\<exists>m'. for_each [0 ..< w] (propagate r) m = Inr m' \<and>
           maze_walls_are h w (\<lambda>r' c'. if r' < Suc r then B r' c' else G r' c') m'"
proof -
  define Fk where "Fk k = (\<lambda>r' c'. if r' < r \<or> (r' = r \<and> c' < k) then B r' c' else G r' c')"
    for k
  have "\<exists>m'. for_each [0 ..< w] (propagate r) m = Inr m' \<and> maze_walls_are h w (Fk w) m'"
  proof (rule for_each_upt_rule[where P = "\<lambda>k s. maze_walls_are h w (Fk k) s"])
    show "maze_walls_are h w (Fk 0) m"
      by (rule maze_walls_are_cong[OF m]) (simp add: Fk_def)
  next
    fix k s assume k: "k < w" and s: "maze_walls_are h w (Fk k) s"
    from propagate_in[OF s r k] obtain s' where
      p: "propagate r k s = Inr s'" and
      s': "maze_walls_are h w
             (\<lambda>r' c'. if r' = r \<and> c' = k
                then Fk k r k
                       OR (if 0 < r \<and> has_wall (Fk k (r - 1) k) wi_bottom then wi_top else 0)
                       OR (if 0 < k \<and> has_wall (Fk k r (k - 1)) wi_right then wi_left else 0)
                else Fk k r' c') s'"
      by blast
    have up: "has_wall (Fk k (r - 1) k) wi_bottom = has_wall (grid ! (r - 1) ! k) wi_bottom"
      if "0 < r"
    proof -
      from that have "r - 1 < r" by arith
      hence "Fk k (r - 1) k = grid ! (r - 1) ! k OR propagated grid (r - 1) k"
        by (simp add: Fk_def B_def)
      thus ?thesis by (simp add: has_wall_or)
    qed
    have left: "has_wall (Fk k r (k - 1)) wi_right = has_wall (grid ! r ! (k - 1)) wi_right"
      if "0 < k"
    proof -
      from that have "k - 1 < k" by arith
      hence "Fk k r (k - 1) = grid ! r ! (k - 1) OR propagated grid r (k - 1)"
        by (simp add: Fk_def B_def)
      thus ?thesis by (simp add: has_wall_or)
    qed
    have here: "Fk k r k
                  OR (if 0 < r \<and> has_wall (Fk k (r - 1) k) wi_bottom then wi_top else 0)
                  OR (if 0 < k \<and> has_wall (Fk k r (k - 1)) wi_right then wi_left else 0)
                = Fk (Suc k) r k"
    proof -
      have a: "Fk k r k = grid ! r ! k" by (simp add: Fk_def G_def)
      have b: "(if 0 < r \<and> has_wall (Fk k (r - 1) k) wi_bottom then wi_top else 0)
          = (if 0 < r \<and> has_wall (grid ! (r - 1) ! k) wi_bottom then wi_top else 0)"
        using up by (cases "0 < r") simp_all
      have c: "(if 0 < k \<and> has_wall (Fk k r (k - 1)) wi_right then wi_left else 0)
          = (if 0 < k \<and> has_wall (grid ! r ! (k - 1)) wi_right then wi_left else 0)"
        using left by (cases "0 < k") simp_all
      have d: "Fk (Suc k) r k = grid ! r ! k OR propagated grid r k"
        by (simp add: Fk_def B_def)
      show ?thesis unfolding a b c d propagated_def by (rule refl)
    qed
    have other: "Fk k r' c' = Fk (Suc k) r' c'" if "\<not> (r' = r \<and> c' = k)" for r' c'
      using that by (auto simp: Fk_def less_Suc_eq)
    have "maze_walls_are h w (Fk (Suc k)) s'"
    proof (rule maze_walls_are_cong[OF s'])
      fix r' c' assume "r' < h" "c' < w"
      show "(if r' = r \<and> c' = k
                then Fk k r k
                       OR (if 0 < r \<and> has_wall (Fk k (r - 1) k) wi_bottom then wi_top else 0)
                       OR (if 0 < k \<and> has_wall (Fk k r (k - 1)) wi_right then wi_left else 0)
                else Fk k r' c')
            = Fk (Suc k) r' c'"
      proof (cases "r' = r \<and> c' = k")
        case True
        hence r': "r' = r" and c': "c' = k" by simp_all
        show ?thesis unfolding r' c' here by simp
      next
        case False
        from other[OF False] False show ?thesis by (simp only: if_False)
      qed
    qed
    with p show "\<exists>s'. propagate r k s = Inr s' \<and> maze_walls_are h w (Fk (Suc k)) s'" by blast
  qed
  then obtain m' where m': "for_each [0 ..< w] (propagate r) m = Inr m'"
    "maze_walls_are h w (Fk w) m'" by blast
  have "maze_walls_are h w (\<lambda>r' c'. if r' < Suc r then B r' c' else G r' c') m'"
    using m'(2) by (rule maze_walls_are_cong) (auto simp: Fk_def less_Suc_eq)
  with m'(1) show ?thesis by blast
qed

lemma propagate_all:
  assumes m: "maze_walls_are h w (\<lambda>r c. grid ! r ! c) m"
  shows "\<exists>m'. for_each [0 ..< h] (\<lambda>row. for_each [0 ..< w] (propagate row)) m = Inr m' \<and>
           maze_walls_are h w (\<lambda>r c. grid ! r ! c OR propagated grid r c) m'"
proof -
  define P where "P r s = maze_walls_are h w
      (\<lambda>r' c'. if r' < r then grid ! r' ! c' OR propagated grid r' c' else grid ! r' ! c') s"
    for r s
  have "\<exists>m'. for_each [0 ..< h] (\<lambda>row. for_each [0 ..< w] (propagate row)) m = Inr m' \<and> P h m'"
  proof (rule for_each_upt_rule)
    show "P 0 m" unfolding P_def using m by simp
  next
    fix r s assume "r < h" "P r s"
    thus "\<exists>s'. for_each [0 ..< w] (propagate r) s = Inr s' \<and> P (Suc r) s'"
      unfolding P_def by (intro propagate_row) 
  qed
  then obtain m' where m': "for_each [0 ..< h] (\<lambda>row. for_each [0 ..< w] (propagate row)) m = Inr m'"
    "P h m'" by blast
  have "maze_walls_are h w (\<lambda>r c. grid ! r ! c OR propagated grid r c) m'"
    using m'(2) unfolding P_def by (rule maze_walls_are_cong) simp
  with m'(1) show ?thesis by blast
qed

lemma seal_cols:
  assumes h: "0 < h" and m: "maze_walls_are h w B m"
  shows "\<exists>m'. for_each [0 ..< w] (seal_col h) m = Inr m' \<and>
           maze_walls_are h w
             (\<lambda>r c. B r c OR ((if r = 0 then wi_top else 0) OR (if r = h - 1 then wi_bottom else 0)))
             m'"
proof -
  define TB where "TB r = (if r = 0 then wi_top else 0) OR (if r = h - 1 then wi_bottom else 0)"
    for r
  define Fk where "Fk k = (\<lambda>r c. if c < k then B r c OR TB r else B r c)" for k
  have "\<exists>m'. for_each [0 ..< w] (seal_col h) m = Inr m' \<and> maze_walls_are h w (Fk w) m'"
  proof (rule for_each_upt_rule[where P = "\<lambda>k s. maze_walls_are h w (Fk k) s"])
    show "maze_walls_are h w (Fk 0) m"
      by (rule maze_walls_are_cong[OF m]) (simp add: Fk_def)
  next
    fix k s assume k: "k < w" and s: "maze_walls_are h w (Fk k) s"
    define F1 where "F1 = (\<lambda>r' c'. if r' = 0 \<and> c' = k then Fk k 0 k OR wi_top else Fk k r' c')"
    define F2 where
      "F2 = (\<lambda>r' c'. if r' = h - 1 \<and> c' = k then F1 (h - 1) k OR wi_bottom else F1 r' c')"
    obtain s1 where a1: "seal (int 0, int k) wi_top s = Inr s1" and b1: "maze_walls_are h w F1 s1"
      using seal_in[OF s h k, of wi_top] unfolding F1_def by auto
    have h1: "h - 1 < h" using h by arith
    obtain s2 where a2: "seal (int (h - 1), int k) wi_bottom s1 = Inr s2"
      and b2: "maze_walls_are h w F2 s2"
      using seal_in[OF b1 h1 k, of wi_bottom] unfolding F2_def by auto
    have i: "int (h - 1) = int h - 1" using h by simp
    have "seal_col h k s = Inr s2"
      using a1 a2[unfolded i] by (simp add: seal_col_def bind_err_def)
    moreover have "maze_walls_are h w (Fk (Suc k)) s2"
    proof (rule maze_walls_are_cong[OF b2])
      fix r' c' assume "r' < h" "c' < w"
      have base: "Fk k r' k = B r' k" by (simp add: Fk_def)
      show "F2 r' c' = Fk (Suc k) r' c'"
      proof (cases "c' = k")
        case False
        thus ?thesis by (auto simp: F2_def F1_def Fk_def less_Suc_eq)
      next
        case True
        show ?thesis unfolding True
          by (cases "r' = 0"; cases "r' = h - 1")
             (simp_all add: F2_def F1_def base Fk_def TB_def or.assoc)
      qed
    qed
    ultimately show "\<exists>s'. seal_col h k s = Inr s' \<and> maze_walls_are h w (Fk (Suc k)) s'" by blast
  qed
  then obtain m' where m': "for_each [0 ..< w] (seal_col h) m = Inr m'"
    "maze_walls_are h w (Fk w) m'" by blast
  have "maze_walls_are h w (\<lambda>r c. B r c OR TB r) m'"
    using m'(2) by (rule maze_walls_are_cong) (simp add: Fk_def)
  with m'(1) show ?thesis unfolding TB_def by blast
qed

lemma seal_rows:
  assumes w: "0 < w" and m: "maze_walls_are h w B m"
  shows "\<exists>m'. for_each [0 ..< h] (seal_row w) m = Inr m' \<and>
           maze_walls_are h w
             (\<lambda>r c. B r c OR ((if c = 0 then wi_left else 0) OR (if c = w - 1 then wi_right else 0)))
             m'"
proof -
  define LR where "LR c = (if c = 0 then wi_left else 0) OR (if c = w - 1 then wi_right else 0)"
    for c
  define Fk where "Fk k = (\<lambda>r c. if r < k then B r c OR LR c else B r c)" for k
  have "\<exists>m'. for_each [0 ..< h] (seal_row w) m = Inr m' \<and> maze_walls_are h w (Fk h) m'"
  proof (rule for_each_upt_rule[where P = "\<lambda>k s. maze_walls_are h w (Fk k) s"])
    show "maze_walls_are h w (Fk 0) m"
      by (rule maze_walls_are_cong[OF m]) (simp add: Fk_def)
  next
    fix k s assume k: "k < h" and s: "maze_walls_are h w (Fk k) s"
    define F1 where "F1 = (\<lambda>r' c'. if r' = k \<and> c' = 0 then Fk k k 0 OR wi_left else Fk k r' c')"
    define F2 where
      "F2 = (\<lambda>r' c'. if r' = k \<and> c' = w - 1 then F1 k (w - 1) OR wi_right else F1 r' c')"
    obtain s1 where a1: "seal (int k, int 0) wi_left s = Inr s1" and b1: "maze_walls_are h w F1 s1"
      using seal_in[OF s k w, of wi_left] unfolding F1_def by auto
    have w1: "w - 1 < w" using w by arith
    obtain s2 where a2: "seal (int k, int (w - 1)) wi_right s1 = Inr s2"
      and b2: "maze_walls_are h w F2 s2"
      using seal_in[OF b1 k w1, of wi_right] unfolding F2_def by auto
    have i: "int (w - 1) = int w - 1" using w by simp
    have "seal_row w k s = Inr s2"
      using a1 a2[unfolded i] by (simp add: seal_row_def bind_err_def)
    moreover have "maze_walls_are h w (Fk (Suc k)) s2"
    proof (rule maze_walls_are_cong[OF b2])
      fix r' c' assume "r' < h" "c' < w"
      have base: "Fk k k c' = B k c'" by (simp add: Fk_def)
      show "F2 r' c' = Fk (Suc k) r' c'"
      proof (cases "r' = k")
        case False
        thus ?thesis by (auto simp: F2_def F1_def Fk_def less_Suc_eq)
      next
        case True
        show ?thesis unfolding True
          by (cases "c' = 0"; cases "c' = w - 1")
             (simp_all add: F2_def F1_def Fk_def LR_def or.assoc)
      qed
    qed
    ultimately show "\<exists>s'. seal_row w k s = Inr s' \<and> maze_walls_are h w (Fk (Suc k)) s'" by blast
  qed
  then obtain m' where m': "for_each [0 ..< h] (seal_row w) m = Inr m'"
    "maze_walls_are h w (Fk h) m'" by blast
  have "maze_walls_are h w (\<lambda>r c. B r c OR LR c) m'"
    using m'(2) by (rule maze_walls_are_cong) (simp add: Fk_def)
  with m'(1) show ?thesis unfolding LR_def by blast
qed

lemma create_maze_walls:
  assumes "accepted_grid h w grid"
  shows "\<exists>Maze. create_maze grid = Inr Maze \<and>
           maze_walls_are h w
             (\<lambda>r c. grid ! r ! c OR propagated grid r c OR edge_walls h w r c) Maze"
proof -
  from assms have sh: "has_shape grid h w" and h: "0 < h" and w: "0 < w"
    by (simp_all add: accepted_grid_def)
  from sh h have ne: "grid \<noteq> []" and len: "length grid = h" by (auto simp: has_shape_def)
  from has_shape_row[OF sh h] ne have wd: "length (hd grid) = w" by (simp add: hd_conv_nth)
  from cells_of_grid[OF assms] obtain m0 where
    m0: "map_err (map_err mzCell) grid = Inr m0" "maze_walls_are h w (\<lambda>r c. grid ! r ! c) m0"
    by blast
  from propagate_all[OF m0(2)] obtain m1 where
    m1: "for_each [0 ..< h] (\<lambda>row. for_each [0 ..< w] (propagate row)) m0 = Inr m1"
        "maze_walls_are h w (\<lambda>r c. grid ! r ! c OR propagated grid r c) m1"
    by blast
  from seal_cols[OF h m1(2)] obtain m2 where
    m2: "for_each [0 ..< w] (seal_col h) m1 = Inr m2"
        "maze_walls_are h w
           (\<lambda>r c. (grid ! r ! c OR propagated grid r c)
                   OR ((if r = 0 then wi_top else 0) OR (if r = h - 1 then wi_bottom else 0))) m2"
    by blast
  from seal_rows[OF w m2(2)] obtain m3 where
    m3: "for_each [0 ..< h] (seal_row w) m2 = Inr m3"
        "maze_walls_are h w
           (\<lambda>r c. ((grid ! r ! c OR propagated grid r c)
                   OR ((if r = 0 then wi_top else 0) OR (if r = h - 1 then wi_bottom else 0)))
                   OR ((if c = 0 then wi_left else 0) OR (if c = w - 1 then wi_right else 0))) m3"
    by blast
  have "create_maze grid = Inr m3"
    using m0(1) m1(1) m2(1) m3(1) ne by (simp add: create_maze_def bind_err_def len wd)
  moreover have "maze_walls_are h w
             (\<lambda>r c. grid ! r ! c OR propagated grid r c OR edge_walls h w r c) m3"
    by (rule maze_walls_are_cong[OF m3(2)]) (simp only: edge_walls_def or.assoc)
  ultimately show ?thesis by blast
qed

lemma has_wall_propagated_iff:
  "has_wall (propagated grid r c) 1 \<longleftrightarrow> 0 < c \<and> has_wall (grid ! r ! (c - 1)) 4"
  "has_wall (propagated grid r c) 2 \<longleftrightarrow> 0 < r \<and> has_wall (grid ! (r - 1) ! c) 8"
  by (auto simp: propagated_def has_wall_or) (simp_all add: has_wall_def)

lemma has_wall_edge_walls_iff:
  "has_wall (edge_walls h w r c) 1 \<longleftrightarrow> c = 0"
  "has_wall (edge_walls h w r c) 2 \<longleftrightarrow> r = 0"
  "has_wall (edge_walls h w r c) 4 \<longleftrightarrow> c = w - 1"
  "has_wall (edge_walls h w r c) 8 \<longleftrightarrow> r = h - 1"
  by (simp_all add: edge_walls_def has_wall_or) (simp_all add: has_wall_def)

lemma scanner_grid_accepted: "scanner_grid h w grid \<Longrightarrow> accepted_grid h w grid"
  by (simp add: scanner_grid_def)

section \<open>The claims about create_maze\<close>

text \<open>
  C3.  On every wall grid with at least one row and one column whose entries the
  \<open>Cell\<close> constructor accepts (every grid of the scanner is one), \<open>create_maze\<close>
  returns a maze of the same shape in which every cell of row 0 has its top wall, every
  cell of the last row its bottom wall, every cell of column 0 its left wall and every
  cell of the last column its right wall.
\<close>

theorem create_maze_seals_boundary:
  assumes "accepted_grid h w grid"
  shows "\<exists>Maze. create_maze grid = Inr Maze \<and> has_shape Maze h w \<and>
           (\<forall>c<w. has_wall (wall_index (Maze ! 0 ! c)) wi_top \<and>
                   has_wall (wall_index (Maze ! (h - 1) ! c)) wi_bottom) \<and>
           (\<forall>r<h. has_wall (wall_index (Maze ! r ! 0)) wi_left \<and>
                   has_wall (wall_index (Maze ! r ! (w - 1))) wi_right)"
proof -
  from assms have h: "0 < h" and w: "0 < w" by (simp_all add: accepted_grid_def)
  from create_maze_walls[OF assms] obtain Maze where
    c: "create_maze grid = Inr Maze" and
    m: "maze_walls_are h w
          (\<lambda>r c. grid ! r ! c OR propagated grid r c OR edge_walls h w r c) Maze"
    by blast
  from m have sh: "has_shape Maze h w"
    and wi: "\<And>r c. r < h \<Longrightarrow> c < w \<Longrightarrow>
           wall_index (Maze ! r ! c) = grid ! r ! c OR propagated grid r c OR edge_walls h w r c"
    by (simp_all add: maze_walls_are_def)
  have "has_wall (wall_index (Maze ! 0 ! c)) wi_top \<and>
        has_wall (wall_index (Maze ! (h - 1) ! c)) wi_bottom" if "c < w" for c
    using wi[OF h that] wi[of "h - 1" c] h that
    by (simp add: has_wall_or has_wall_edge_walls_iff)
  moreover have "has_wall (wall_index (Maze ! r ! 0)) wi_left \<and>
        has_wall (wall_index (Maze ! r ! (w - 1))) wi_right" if "r < h" for r
    using wi[OF that w] wi[of r "w - 1"] w that
    by (simp add: has_wall_or has_wall_edge_walls_iff)
  ultimately show ?thesis using c sh by blast
qed

text \<open>
  C4.  On a wall grid in which a left wall is recorded only on column 0 and a top wall
  only on row 0, \<open>create_maze\<close> returns a maze in which, for two cells side by side,
  the right cell has its left wall exactly when the left cell has its right wall, and
  for two cells one above the other, the lower cell has its top wall exactly when the
  upper cell has its bottom wall.  The right or bottom wall is the one of the grid; the
  grid has no left or top wall for the other cell, which gets it from the propagation.
\<close>

theorem create_maze_shares_inner_walls:
  assumes "scanner_grid h w grid"
  shows "\<exists>Maze. create_maze grid = Inr Maze \<and>
     (\<forall>r c. r < h \<and> c + 1 < w \<longrightarrow>
        (has_wall (wall_index (Maze ! r ! (c + 1))) wi_left
           \<longleftrightarrow> has_wall (wall_index (Maze ! r ! c)) wi_right) \<and>
        (has_wall (wall_index (Maze ! r ! c)) wi_right \<longleftrightarrow> has_wall (grid ! r ! c) wi_right) \<and>
        \<not> has_wall (grid ! r ! (c + 1)) wi_left) \<and>
     (\<forall>r c. r + 1 < h \<and> c < w \<longrightarrow>
        (has_wall (wall_index (Maze ! (r + 1) ! c)) wi_top
           \<longleftrightarrow> has_wall (wall_index (Maze ! r ! c)) wi_bottom) \<and>
        (has_wall (wall_index (Maze ! r ! c)) wi_bottom \<longleftrightarrow> has_wall (grid ! r ! c) wi_bottom) \<and>
        \<not> has_wall (grid ! (r + 1) ! c) wi_top)"
proof -
  from assms have acc: "accepted_grid h w grid"
    and noleft: "\<And>r c. r < h \<Longrightarrow> c < w \<Longrightarrow> 0 < c \<Longrightarrow> \<not> has_wall (grid ! r ! c) 1"
    and notop: "\<And>r c. r < h \<Longrightarrow> c < w \<Longrightarrow> 0 < r \<Longrightarrow> \<not> has_wall (grid ! r ! c) 2"
    by (simp_all add: scanner_grid_def)
  from create_maze_walls[OF acc] obtain Maze where
    c: "create_maze grid = Inr Maze" and
    m: "maze_walls_are h w
          (\<lambda>r c. grid ! r ! c OR propagated grid r c OR edge_walls h w r c) Maze"
    by blast
  from m have wi: "\<And>r c. r < h \<Longrightarrow> c < w \<Longrightarrow>
           wall_index (Maze ! r ! c) = grid ! r ! c OR propagated grid r c OR edge_walls h w r c"
    by (simp add: maze_walls_are_def)
  have horizontal:
       "(has_wall (wall_index (Maze ! r ! (c + 1))) wi_left
           \<longleftrightarrow> has_wall (wall_index (Maze ! r ! c)) wi_right) \<and>
        (has_wall (wall_index (Maze ! r ! c)) wi_right \<longleftrightarrow> has_wall (grid ! r ! c) wi_right) \<and>
        \<not> has_wall (grid ! r ! (c + 1)) wi_left"
    if "r < h" "c + 1 < w" for r c
  proof -
    from that have cw: "c < w" and ne: "c \<noteq> w - 1" by arith+
    from wi[OF that] wi[OF that(1) cw] noleft[OF that] ne show ?thesis
      by (simp add: has_wall_or has_wall_propagated_iff has_wall_edge_walls_iff)
  qed
  have vertical:
       "(has_wall (wall_index (Maze ! (r + 1) ! c)) wi_top
           \<longleftrightarrow> has_wall (wall_index (Maze ! r ! c)) wi_bottom) \<and>
        (has_wall (wall_index (Maze ! r ! c)) wi_bottom \<longleftrightarrow> has_wall (grid ! r ! c) wi_bottom) \<and>
        \<not> has_wall (grid ! (r + 1) ! c) wi_top"
    if "r + 1 < h" "c < w" for r c
  proof -
    from that have rh: "r < h" and ne: "r \<noteq> h - 1" by arith+
    from wi[OF that] wi[OF rh that(2)] notop[OF that] ne show ?thesis
      by (simp add: has_wall_or has_wall_propagated_iff has_wall_edge_walls_iff)
  qed
  from c horizontal vertical show ?thesis by blast
qed

theorem create_maze_seals_boundary_witness:
  "accepted_grid 2 2 [[0, 0], [0, 0]]
   \<and> create_maze [[0, 0], [0, 0]] = Inr open_square
   \<and> has_wall (wall_index (open_square ! 0 ! 0)) wi_top
   \<and> has_wall (wall_index (open_square ! 0 ! 1)) wi_top
   \<and> has_wall (wall_index (open_square ! 1 ! 0)) wi_bottom
   \<and> has_wall (wall_index (open_square ! 1 ! 1)) wi_bottom
   \<and> has_wall (wall_index (open_square ! 0 ! 0)) wi_left
   \<and> has_wall (wall_index (open_square ! 1 ! 0)) wi_left
   \<and> has_wall (wall_index (open_square ! 0 ! 1)) wi_right
   \<and> has_wall (wall_index (open_square ! 1 ! 1)) wi_right"
proof -
  have a: "accepted_grid 2 2 [[0, 0], [0, 0]]"
    by (simp add: accepted_grid_def has_shape_def)
  have e: "create_maze [[0, 0], [0, 0]] = Inr open_square" by code_simp
  from create_maze_seals_boundary[OF a] e
  have cols: "\<forall>c<2. has_wall (wall_index (open_square ! 0 ! c)) wi_top \<and>
                     has_wall (wall_index (open_square ! (2 - 1) ! c)) wi_bottom"
    and rows: "\<forall>r<2. has_wall (wall_index (open_square ! r ! 0)) wi_left \<and>
                     has_wall (wall_index (open_square ! r ! (2 - 1))) wi_right"
    by auto
  from cols have "has_wall (wall_index (open_square ! 0 ! 0)) wi_top"
    "has_wall (wall_index (open_square ! 0 ! 1)) wi_top"
    "has_wall (wall_index (open_square ! 1 ! 0)) wi_bottom"
    "has_wall (wall_index (open_square ! 1 ! 1)) wi_bottom"
    by (simp_all del: wi_top_def wi_bottom_def)
  moreover from rows have "has_wall (wall_index (open_square ! 0 ! 0)) wi_left"
    "has_wall (wall_index (open_square ! 1 ! 0)) wi_left"
    "has_wall (wall_index (open_square ! 0 ! 1)) wi_right"
    "has_wall (wall_index (open_square ! 1 ! 1)) wi_right"
    by (simp_all del: wi_left_def wi_right_def)
  ultimately show ?thesis using a e by blast
qed

theorem create_maze_shares_inner_walls_witness:
  "scanner_grid 2 2 [[4, 8], [0, 0]]
   \<and> (\<exists>Maze. create_maze [[4, 8], [0, 0]] = Inr Maze
        \<and> has_wall (wall_index (Maze ! 0 ! 0)) wi_right
        \<and> has_wall (wall_index (Maze ! 0 ! 1)) wi_left
        \<and> \<not> has_wall (wall_index (Maze ! 1 ! 0)) wi_right
        \<and> \<not> has_wall (wall_index (Maze ! 1 ! 1)) wi_left
        \<and> has_wall (wall_index (Maze ! 0 ! 1)) wi_bottom
        \<and> has_wall (wall_index (Maze ! 1 ! 1)) wi_top
        \<and> \<not> has_wall (wall_index (Maze ! 0 ! 0)) wi_bottom
        \<and> \<not> has_wall (wall_index (Maze ! 1 ! 0)) wi_top)"
proof -
  have s: "scanner_grid 2 2 [[4, 8], [0, 0]]"
    by (auto simp: scanner_grid_def accepted_grid_def has_shape_def has_wall_def
                   less_Suc_eq numeral_2_eq_2)
  from create_maze_shares_inner_walls[OF s] obtain Maze where
    c: "create_maze [[4, 8], [0, 0]] = Inr Maze"
    and hor: "\<And>r c. r < 2 \<Longrightarrow> c + 1 < 2 \<Longrightarrow>
        (has_wall (wall_index (Maze ! r ! (c + 1))) wi_left
           \<longleftrightarrow> has_wall (wall_index (Maze ! r ! c)) wi_right) \<and>
        (has_wall (wall_index (Maze ! r ! c)) wi_right
           \<longleftrightarrow> has_wall ([[4, 8], [0, 0]] ! r ! c) wi_right)"
    and ver: "\<And>r c. r + 1 < 2 \<Longrightarrow> c < 2 \<Longrightarrow>
        (has_wall (wall_index (Maze ! (r + 1) ! c)) wi_top
           \<longleftrightarrow> has_wall (wall_index (Maze ! r ! c)) wi_bottom) \<and>
        (has_wall (wall_index (Maze ! r ! c)) wi_bottom
           \<longleftrightarrow> has_wall ([[4, 8], [0, 0]] ! r ! c) wi_bottom)"
    by blast
  from hor[of 0 0] hor[of 1 0] ver[of 0 0] ver[of 0 1]
  have "has_wall (wall_index (Maze ! 0 ! 0)) wi_right
        \<and> has_wall (wall_index (Maze ! 0 ! 1)) wi_left
        \<and> \<not> has_wall (wall_index (Maze ! 1 ! 0)) wi_right
        \<and> \<not> has_wall (wall_index (Maze ! 1 ! 1)) wi_left
        \<and> has_wall (wall_index (Maze ! 0 ! 1)) wi_bottom
        \<and> has_wall (wall_index (Maze ! 1 ! 1)) wi_top
        \<and> \<not> has_wall (wall_index (Maze ! 0 ! 0)) wi_bottom
        \<and> \<not> has_wall (wall_index (Maze ! 1 ! 0)) wi_top"
    by (simp add: has_wall_def)
  with s c show ?thesis by blast
qed

section \<open>The claim about cells outside the maze\<close>

lemma locate_outside:
  assumes sh: "has_shape arr h w" and nn: "0 \<le> fst rc" "0 \<le> snd rc"
    and out: "int h \<le> fst rc \<or> int w \<le> snd rc"
  shows "locate arr rc = Inl IndexError"
proof (cases "int h \<le> fst rc")
  case True
  with sh show ?thesis by (simp add: locate_def py_index_def has_shape_def)
next
  case False
  with nn have r: "nat (fst rc) < h" by simp
  from False out have "int w \<le> snd rc" by simp
  moreover from has_shape_row[OF sh r] have "length (arr ! nat (fst rc)) = w" .
  ultimately show ?thesis using sh False nn
    by (simp add: locate_def py_index_def has_shape_def)
qed

lemma has_shape_walls: "has_shape (walls m) h w = has_shape m h w"
  by (simp add: has_shape_def walls_def list_all_length)

lemma apply_at_shape:
  assumes "\<And>c. wall_index (f c) = wall_index c" "apply_at Maze rc f = Inr Maze'"
    "has_shape Maze h w"
  shows "has_shape Maze' h w"
  using apply_at_walls[OF assms(1,2)] assms(3) has_shape_walls[of Maze h w]
    has_shape_walls[of Maze' h w] by simp

lemma apply_at_outside:
  assumes "has_shape Maze h w" "0 \<le> fst rc" "0 \<le> snd rc" "int h \<le> fst rc \<or> int w \<le> snd rc"
  shows "apply_at Maze rc f = Inl IndexError"
  using locate_outside[OF assms] by (simp add: apply_at_def bind_err_def)

lemma check_inputs_passed:
  assumes "check_inputs width height start_cell finish_cell = Inr ok"
  shows "0 \<le> fst start_cell" "0 \<le> snd start_cell" "0 \<le> fst finish_cell" "0 \<le> snd finish_cell"
    "0 < width" "0 < height"
  using assms by (auto simp: check_inputs_def in_range_def split: if_splits)

text \<open>
  C7.  Solving is the construction of the \<open>CLProcessor\<close> instance, which checks the
  cells, followed by \<open>solve_maze\<close>, which indexes the maze with them.  On a maze of
  \<open>height\<close> rows and \<open>width\<close> columns, a start or finish cell with a negative
  component, or with a component that is not below the dimension it is compared with
  (the row with the height and the column with the width, as the array is indexed, or
  the first component with the width and the second with the height, as
  \<open>__check_inputs\<close> compares them), makes solving raise: \<open>ValueError\<close> from the
  checks or \<open>IndexError\<close> from the array.  No search is started.
\<close>

theorem solve_rejects_cells_outside:
  assumes "has_shape Maze (nat height) (nat width)"
    and "\<not> inside width height start_cell \<or> \<not> inside width height finish_cell
         \<or> \<not> inside height width start_cell \<or> \<not> inside height width finish_cell"
  shows "\<exists>e. solve enum fuel Maze width height start_cell finish_cell = Some (Inl e)"
proof (cases "check_inputs width height start_cell finish_cell")
  case (Inl e)
  thus ?thesis by (simp add: solve_def)
next
  case (Inr ok)
  note pos = check_inputs_passed[OF Inr]
  from Inr have chk: "inside height width start_cell" "inside height width finish_cell"
    by (auto simp: check_inputs_def in_range_def inside_def split: if_splits)
  from pos have hw: "int (nat height) = height" "int (nat width) = width" by simp_all
  have sm: "solve enum fuel Maze width height start_cell finish_cell
              = solve_maze enum fuel Maze start_cell finish_cell"
    using Inr by (simp add: solve_def)
  show ?thesis
  proof (cases "inside width height start_cell")
    case False
    with pos have "int (nat height) \<le> fst start_cell \<or> int (nat width) \<le> snd start_cell"
      unfolding hw by (auto simp: inside_def)
    from apply_at_outside[OF assms(1) pos(1,2) this]
    show ?thesis unfolding sm by (simp add: solve_maze_def)
  next
    case True
    with assms(2) chk have "\<not> inside width height finish_cell" by simp
    with pos have out: "int (nat height) \<le> fst finish_cell \<or> int (nat width) \<le> snd finish_cell"
      unfolding hw by (auto simp: inside_def)
    show ?thesis
    proof (cases "apply_at Maze start_cell set_as_start")
      case (Inl e)
      thus ?thesis unfolding sm by (simp add: solve_maze_def)
    next
      case (Inr Maze1)
      have "has_shape Maze1 (nat height) (nat width)"
        using apply_at_shape[OF _ Inr assms(1)] by simp
      from apply_at_outside[OF this pos(3,4) out] Inr
      show ?thesis unfolding sm by (simp add: solve_maze_def)
    qed
  qed
qed

theorem solve_rejects_cells_outside_witness:
  "has_shape corridor (nat 1) (nat 2)
   \<and> \<not> inside 2 1 (1, 0)
   \<and> (\<exists>e. solve remdups 3 corridor 2 1 (1, 0) (0, 0) = Some (Inl e))
   \<and> solve remdups 3 corridor 2 1 (1, 0) (0, 0) = Some (Inl IndexError)
   \<and> solve remdups 3 corridor 2 1 (- 1, 0) (0, 0) = Some (Inl ValueError)"
proof -
  have s: "has_shape corridor (nat 1) (nat 2)" by (simp add: has_shape_def corridor_def)
  have o: "\<not> inside 2 1 (1, 0)" by (simp add: inside_def)
  have e1: "solve remdups 3 corridor 2 1 (1, 0) (0, 0) = Some (Inl IndexError)" by code_simp
  have e2: "solve remdups 3 corridor 2 1 (- 1, 0) (0, 0) = Some (Inl ValueError)" by code_simp
  from solve_rejects_cells_outside[OF s disjI1, OF o, of remdups 3 "(0, 0)"] s o e1 e2
  show ?thesis by blast
qed

text \<open>
  \<open>solve_maze\<close> by itself takes a negative index as the array does, counting from
  the end: on the open two by two maze the cells \<open>(-2, -2)\<close> and \<open>(-1, -1)\<close> are
  the cells \<open>(0, 0)\<close> and \<open>(1, 1)\<close>.  A negative component is refused by the
  checks of \<open>CLProcessor\<close>, which every call of \<open>solve_maze\<close> has passed.
\<close>

lemma solve_maze_counts_negative_index_from_end:
  "map_option (map_sum id fst) (solve_maze remdups 5 open_square (- 2, - 2) (- 1, - 1))
     = Some (Inr (Solved [(- 2, - 2), (- 2, - 2), (- 2, - 1), (- 1, - 1)]))"
  by code_simp

text \<open>
  \<open>__check_inputs\<close> compares the first component of a cell with the width and the
  second with the height, while the maze is indexed by row and then column: in a maze
  of one row and two columns the cell \<open>(0, 1)\<close> is refused.
\<close>

lemma check_inputs_compares_row_with_width:
  "inside 2 1 (0, 1) \<and> check_inputs 2 1 (0, 0) (0, 1) = Inl ValueError"
  by (simp add: inside_def check_inputs_def in_range_def)

section \<open>The path across a maze of the scanner\<close>

lemma walls_nth:
  assumes "has_shape m h w" "r < h" "c < w"
  shows "walls m ! r ! c = wall_index (m ! r ! c)"
  using assms has_shape_row[OF assms(1,2)] by (simp add: walls_def has_shape_def)

lemma create_maze_shared_walls:
  assumes "scanner_grid h w grid"
  shows "\<exists>Maze. create_maze grid = Inr Maze \<and> shared_walls h w (walls Maze)"
proof -
  from assms have acc: "accepted_grid h w grid"
    and noleft: "\<And>r c. r < h \<Longrightarrow> c < w \<Longrightarrow> 0 < c \<Longrightarrow> \<not> has_wall (grid ! r ! c) 1"
    and notop: "\<And>r c. r < h \<Longrightarrow> c < w \<Longrightarrow> 0 < r \<Longrightarrow> \<not> has_wall (grid ! r ! c) 2"
    by (simp_all add: scanner_grid_def)
  from create_maze_walls[OF acc] obtain Maze where
    c: "create_maze grid = Inr Maze" and
    m: "maze_walls_are h w
          (\<lambda>r c. grid ! r ! c OR propagated grid r c OR edge_walls h w r c) Maze"
    by blast
  from m have sh: "has_shape Maze h w"
    and wi0: "\<And>r c. r < h \<Longrightarrow> c < w \<Longrightarrow>
           wall_index (Maze ! r ! c) = grid ! r ! c OR propagated grid r c OR edge_walls h w r c"
    by (simp_all add: maze_walls_are_def)
  have wi: "walls Maze ! r ! c = grid ! r ! c OR propagated grid r c OR edge_walls h w r c"
    if "r < h" "c < w" for r c
    using walls_nth[OF sh that] wi0[OF that] by simp
  have "(has_wall (walls Maze ! r ! c) 1 \<longleftrightarrow> c = 0 \<or> has_wall (walls Maze ! r ! (c - 1)) 4) \<and>
        (has_wall (walls Maze ! r ! c) 2 \<longleftrightarrow> r = 0 \<or> has_wall (walls Maze ! (r - 1) ! c) 8) \<and>
        (c = w - 1 \<longrightarrow> has_wall (walls Maze ! r ! c) 4) \<and>
        (r = h - 1 \<longrightarrow> has_wall (walls Maze ! r ! c) 8)"
    if rc: "r < h" "c < w" for r c
  proof (intro conjI)
    show "has_wall (walls Maze ! r ! c) 1 \<longleftrightarrow> c = 0 \<or> has_wall (walls Maze ! r ! (c - 1)) 4"
    proof (cases "c = 0")
      case True
      with wi[OF rc] show ?thesis by (simp add: has_wall_or has_wall_edge_walls_iff)
    next
      case False
      hence c1: "c - 1 < w" "c - 1 \<noteq> w - 1" "0 < c" using rc by arith+
      from wi[OF rc] wi[OF rc(1) c1(1)] noleft[OF rc c1(3)] False c1(2) show ?thesis
        by (simp add: has_wall_or has_wall_propagated_iff has_wall_edge_walls_iff)
    qed
    show "has_wall (walls Maze ! r ! c) 2 \<longleftrightarrow> r = 0 \<or> has_wall (walls Maze ! (r - 1) ! c) 8"
    proof (cases "r = 0")
      case True
      with wi[OF rc] show ?thesis by (simp add: has_wall_or has_wall_edge_walls_iff)
    next
      case False
      hence r1: "r - 1 < h" "r - 1 \<noteq> h - 1" "0 < r" using rc by arith+
      from wi[OF rc] wi[OF r1(1) rc(2)] notop[OF rc r1(3)] False r1(2) show ?thesis
        by (simp add: has_wall_or has_wall_propagated_iff has_wall_edge_walls_iff)
    qed
    show "c = w - 1 \<longrightarrow> has_wall (walls Maze ! r ! c) 4"
      unfolding wi[OF rc] by (simp add: has_wall_or has_wall_edge_walls_iff)
    show "r = h - 1 \<longrightarrow> has_wall (walls Maze ! r ! c) 8"
      unfolding wi[OF rc] by (simp add: has_wall_or has_wall_edge_walls_iff)
  qed
  hence "shared_walls h w (walls Maze)"
    using sh by (simp add: shared_walls_def has_shape_walls)
  with c show ?thesis by blast
qed

lemma locate_inside:
  assumes "has_shape W h w" "inside (int w) (int h) a"
  shows "locate W a = Inr (nat (fst a), nat (snd a))"
proof -
  from assms(2) have "nat (fst a) < h" "nat (snd a) < w" "int (nat (fst a)) = fst a"
    "int (nat (snd a)) = snd a"
    by (auto simp: inside_def)
  with locate_in[OF assms(1), of "nat (fst a)" "nat (snd a)"] show ?thesis by simp
qed

lemma open_step_shared:
  assumes sw: "shared_walls h w W" and a: "inside (int w) (int h) a" and st: "open_step W a b"
  shows "inside (int w) (int h) b \<and> no_wall_between W a b"
proof -
  define r c where "r = nat (fst a)" and "c = nat (snd a)"
  from a have rc: "r < h" "c < w" and a_eq: "a = (int r, int c)"
    by (auto simp: inside_def r_def c_def)
  from sw have sh: "has_shape W h w" by (simp add: shared_walls_def)
  from sw rc have
    left: "has_wall (W ! r ! c) 1 \<longleftrightarrow> c = 0 \<or> has_wall (W ! r ! (c - 1)) 4" and
    top: "has_wall (W ! r ! c) 2 \<longleftrightarrow> r = 0 \<or> has_wall (W ! (r - 1) ! c) 8" and
    right: "c = w - 1 \<longrightarrow> has_wall (W ! r ! c) 4" and
    bottom: "r = h - 1 \<longrightarrow> has_wall (W ! r ! c) 8"
    by (simp_all add: shared_walls_def)
  have right': "c + 1 < w \<Longrightarrow> has_wall (W ! r ! (c + 1)) 1 \<longleftrightarrow> has_wall (W ! r ! c) 4"
    using sw rc(1) by (simp add: shared_walls_def)
  have bottom': "r + 1 < h \<Longrightarrow> has_wall (W ! (r + 1) ! c) 2 \<longleftrightarrow> has_wall (W ! r ! c) 8"
    using sw rc(2) by (simp add: shared_walls_def)
  have wa: "wall_of W a = W ! r ! c" by (simp add: wall_of_def r_def c_def)
  from st have cases:
    "(b = (int r, int c - 1) \<and> \<not> has_wall (W ! r ! c) 1) \<or>
     (b = (int r - 1, int c) \<and> \<not> has_wall (W ! r ! c) 2) \<or>
     (b = (int r, int c + 1) \<and> \<not> has_wall (W ! r ! c) 4) \<or>
     (b = (int r + 1, int c) \<and> \<not> has_wall (W ! r ! c) 8)"
    unfolding open_step_def locate_inside[OF sh a]
    by (simp add: a_eq cell_at_def has_wall_def)
  thus ?thesis
  proof (elim disjE conjE)
    assume b: "b = (int r, int c - 1)" and nw: "\<not> has_wall (W ! r ! c) 1"
    with left have c0: "0 < c" and nb: "\<not> has_wall (W ! r ! (c - 1)) 4" by auto
    from c0 have wb: "wall_of W b = W ! r ! (c - 1)"
      by (simp add: wall_of_def b nat_diff_distrib')
    from c0 rc have "inside (int w) (int h) b" by (simp add: inside_def b)
    moreover have "no_wall_between W a b"
      unfolding no_wall_between_def wa wb using nw nb by (simp add: b a_eq)
    ultimately show ?thesis by simp
  next
    assume b: "b = (int r - 1, int c)" and nw: "\<not> has_wall (W ! r ! c) 2"
    with top have r0: "0 < r" and nb: "\<not> has_wall (W ! (r - 1) ! c) 8" by auto
    from r0 have wb: "wall_of W b = W ! (r - 1) ! c"
      by (simp add: wall_of_def b nat_diff_distrib')
    from r0 rc have "inside (int w) (int h) b" by (simp add: inside_def b)
    moreover have "no_wall_between W a b"
      unfolding no_wall_between_def wa wb using nw nb by (simp add: b a_eq)
    ultimately show ?thesis by simp
  next
    assume b: "b = (int r, int c + 1)" and nw: "\<not> has_wall (W ! r ! c) 4"
    with right rc have c1: "c + 1 < w" by (cases "c = w - 1") auto
    from right'[OF c1] nw have nb: "\<not> has_wall (W ! r ! (c + 1)) 1" by simp
    have wb: "wall_of W b = W ! r ! (c + 1)"
      by (simp add: wall_of_def b nat_add_distrib)
    from c1 rc have "inside (int w) (int h) b" by (simp add: inside_def b)
    moreover have "no_wall_between W a b"
      unfolding no_wall_between_def wa wb using nw nb by (simp add: b a_eq)
    ultimately show ?thesis by simp
  next
    assume b: "b = (int r + 1, int c)" and nw: "\<not> has_wall (W ! r ! c) 8"
    with bottom rc have r1: "r + 1 < h" by (cases "r = h - 1") auto
    from bottom'[OF r1] nw have nb: "\<not> has_wall (W ! (r + 1) ! c) 2" by simp
    have wb: "wall_of W b = W ! (r + 1) ! c"
      by (simp add: wall_of_def b nat_add_distrib)
    from r1 rc have "inside (int w) (int h) b" by (simp add: inside_def b)
    moreover have "no_wall_between W a b"
      unfolding no_wall_between_def wa wb using nw nb by (simp add: b a_eq)
    ultimately show ?thesis by simp
  qed
qed

lemma no_wall_between_distance: "no_wall_between W a b \<Longrightarrow> calc_distance a b = 1"
  by (auto simp: no_wall_between_def calc_distance_one_iff)

lemma walk_shared:
  assumes sw: "shared_walls h w W"
  shows "inside (int w) (int h) a \<Longrightarrow> successively (open_step W) (a # wk) \<Longrightarrow>
         list_all (inside (int w) (int h)) (a # wk) \<and>
         successively (\<lambda>a b. calc_distance a b = 1 \<and> no_wall_between W a b) (a # wk)"
proof (induction wk arbitrary: a)
  case Nil
  thus ?case by simp
next
  case (Cons b wk)
  from Cons.prems have st: "open_step W a b" and rest: "successively (open_step W) (b # wk)"
    by simp_all
  from open_step_shared[OF sw Cons.prems(1) st]
  have b: "inside (int w) (int h) b" and nw: "no_wall_between W a b" by simp_all
  from Cons.IH[OF b rest] Cons.prems(1) nw no_wall_between_distance[OF nw]
  show ?case by simp
qed

lemma solve_maze_Solved_shared:
  assumes sw: "shared_walls h w (walls Maze)"
    and st: "inside (int w) (int h) start_cell"
    and sv: "solve_maze enum fuel Maze start_cell finish_cell = Some (Inr (Solved path, Maze'))"
  shows "hd path = start_cell \<and> last path = finish_cell
         \<and> list_all (inside (int w) (int h)) path
         \<and> (\<exists>wk. path = start_cell # wk \<and> wk \<noteq> [] \<and> hd wk = start_cell
                \<and> last wk = finish_cell
                \<and> successively (\<lambda>a b. calc_distance a b = 1
                                       \<and> no_wall_between (walls Maze) a b) wk)"
proof -
  from solve_maze_Solved[OF sv] obtain wk where
    p: "path = start_cell # wk" and wk: "walk (walls Maze) start_cell finish_cell wk"
    by blast
  from wk obtain wk' where wk': "wk = start_cell # wk'"
    by (cases wk) (auto simp: walk_def)
  from wk have "successively (open_step (walls Maze)) (start_cell # wk')"
    by (simp add: walk_def wk')
  from walk_shared[OF sw st this] p wk st show ?thesis
    by (auto simp: walk_def wk')
qed

text \<open>
  C2, as the code has it.  On a maze that \<open>create_maze\<close> builds from a wall grid of
  the scanner, and for a start cell inside the maze, a solved path, once its flag is
  removed, is the start cell followed by a walk from the start cell to the finish
  cell: its first and its second element are the start cell, its last element is the
  finish cell, every element is a cell inside the maze, and from the second element on
  every cell is followed by a neighbour at distance 1 with no wall between the two,
  neither on the side of the cell that is left nor on the side of the cell that is
  entered.
\<close>

theorem solved_path_is_start_then_walk:
  assumes "scanner_grid h w grid" and "create_maze grid = Inr Maze"
    and "inside (int w) (int h) start_cell"
    and "solve_maze enum fuel Maze start_cell finish_cell = Some (Inr (Solved path, Maze'))
         \<or> solve enum fuel Maze (int w) (int h) start_cell finish_cell
              = Some (Inr (Solved path, Maze'))"
  shows "hd path = start_cell \<and> last path = finish_cell
         \<and> list_all (inside (int w) (int h)) path
         \<and> (\<exists>wk. path = start_cell # wk \<and> wk \<noteq> [] \<and> hd wk = start_cell
                \<and> last wk = finish_cell
                \<and> successively (\<lambda>a b. calc_distance a b = 1
                                       \<and> no_wall_between (walls Maze) a b) wk)"
proof -
  from create_maze_shared_walls[OF assms(1)] assms(2)
  have sw: "shared_walls h w (walls Maze)" by auto
  from assms(4)
  have "solve_maze enum fuel Maze start_cell finish_cell = Some (Inr (Solved path, Maze'))"
    by (auto simp: solve_def split: sum.splits)
  from solve_maze_Solved_shared[OF sw assms(3) this] show ?thesis .
qed

theorem solved_path_is_start_then_walk_witness:
  "scanner_grid 2 2 [[4, 0], [0, 0]]
   \<and> create_maze [[4, 0], [0, 0]] = Inr detour
   \<and> inside 2 2 (0, 0)
   \<and> solve remdups 5 detour 2 2 (0, 0) (0, 1) =
       Some (Inr (Solved [(0, 0), (0, 0), (1, 0), (1, 1), (0, 1)],
         [[\<lparr>wall_index = 7, display_index = 1540, visited = True, direction = 512\<rparr>,
           \<lparr>wall_index = 7, display_index = 2080, visited = False, direction = 0\<rparr>],
          [\<lparr>wall_index = 9, display_index = 256, visited = True, direction = 256\<rparr>,
           \<lparr>wall_index = 12, display_index = 128, visited = True, direction = 128\<rparr>]]))
   \<and> hd [(0, 0), (0, 0), (1, 0), (1, 1), (0, 1)] = (0::int, 0::int)
   \<and> last [(0, 0), (0, 0), (1, 0), (1, 1), (0, 1)] = (0::int, 1::int)
   \<and> list_all (inside 2 2) [(0, 0), (0, 0), (1, 0), (1, 1), (0, 1)]
   \<and> (\<exists>wk. [(0, 0), (0, 0), (1, 0), (1, 1), (0, 1)] = (0, 0) # wk \<and> wk \<noteq> []
          \<and> hd wk = (0, 0) \<and> last wk = (0, 1)
          \<and> successively (\<lambda>a b. calc_distance a b = 1
                                 \<and> no_wall_between (walls detour) a b) wk)"
proof -
  have g: "scanner_grid 2 2 [[4, 0], [0, 0]]"
    by (auto simp: scanner_grid_def accepted_grid_def has_shape_def has_wall_def
                   less_Suc_eq numeral_2_eq_2)
  have c: "create_maze [[4, 0], [0, 0]] = Inr detour" by code_simp
  have i: "inside (int 2) (int 2) (0, 0)" by (simp add: inside_def)
  have e: "solve remdups 5 detour (int 2) (int 2) (0, 0) (0, 1) =
       Some (Inr (Solved [(0, 0), (0, 0), (1, 0), (1, 1), (0, 1)],
         [[\<lparr>wall_index = 7, display_index = 1540, visited = True, direction = 512\<rparr>,
           \<lparr>wall_index = 7, display_index = 2080, visited = False, direction = 0\<rparr>],
          [\<lparr>wall_index = 9, display_index = 256, visited = True, direction = 256\<rparr>,
           \<lparr>wall_index = 12, display_index = 128, visited = True, direction = 128\<rparr>]]))"
    by code_simp
  from solved_path_is_start_then_walk[OF g c i disjI2, OF e] g c i e
  show ?thesis by simp
qed

text \<open>
  C2 as stated fails in two ways.  On the open two by two maze, from \<open>(0, 0)\<close> to
  \<open>(1, 1)\<close>, the solved path without its flag is \<open>[(0, 0), (0, 0), (0, 1), (1, 1)]\<close>,
  whose first two elements are the same cell, at distance 0.  And the search reads
  only the walls of the cell it leaves: on the maze of the grid \<open>[[0, 1], [0, 0]]\<close>,
  which \<open>create_maze\<close> accepts, the solved path from \<open>(0, 0)\<close> to \<open>(0, 1)\<close> enters
  the cell \<open>(0, 1)\<close> through its left wall.
\<close>

theorem solved_path_repeats_start_and_crosses_one_sided_wall:
  "create_maze [[0, 0], [0, 0]] = Inr open_square
   \<and> solve remdups 5 open_square 2 2 (0, 0) (1, 1) =
     Some (Inr (Solved [(0, 0), (0, 0), (0, 1), (1, 1)],
       [[\<lparr>wall_index = 3, display_index = 1280, visited = True, direction = 256\<rparr>,
         \<lparr>wall_index = 6, display_index = 512, visited = True, direction = 512\<rparr>],
        [\<lparr>wall_index = 9, display_index = 0, visited = False, direction = 0\<rparr>,
         \<lparr>wall_index = 12, display_index = 2080, visited = False, direction = 0\<rparr>]]))
   \<and> \<not> successively (\<lambda>a b. calc_distance a b = 1) [(0, 0), (0, 0), (0, 1), (1, 1)]
   \<and> create_maze [[0, 1], [0, 0]] = Inr one_sided
   \<and> solve remdups 5 one_sided 2 2 (0, 0) (0, 1) =
     Some (Inr (Solved [(0, 0), (0, 0), (0, 1)],
       [[\<lparr>wall_index = 3, display_index = 1280, visited = True, direction = 256\<rparr>,
         \<lparr>wall_index = 7, display_index = 2081, visited = False, direction = 0\<rparr>],
        [\<lparr>wall_index = 9, display_index = 0, visited = False, direction = 0\<rparr>,
         \<lparr>wall_index = 12, display_index = 0, visited = False, direction = 0\<rparr>]]))
   \<and> has_wall (wall_index (one_sided ! 0 ! 1)) wi_left
   \<and> \<not> no_wall_between (walls one_sided) (0, 0) (0, 1)"
proof (intro conjI)
  show "create_maze [[0, 0], [0, 0]] = Inr open_square" by code_simp
  show "solve remdups 5 open_square 2 2 (0, 0) (1, 1) =
     Some (Inr (Solved [(0, 0), (0, 0), (0, 1), (1, 1)],
       [[\<lparr>wall_index = 3, display_index = 1280, visited = True, direction = 256\<rparr>,
         \<lparr>wall_index = 6, display_index = 512, visited = True, direction = 512\<rparr>],
        [\<lparr>wall_index = 9, display_index = 0, visited = False, direction = 0\<rparr>,
         \<lparr>wall_index = 12, display_index = 2080, visited = False, direction = 0\<rparr>]]))"
    by code_simp
  show "\<not> successively (\<lambda>a b. calc_distance a b = 1) [(0, 0), (0, 0), (0, 1), (1, 1)]"
    by (simp add: calc_distance_def)
  show "create_maze [[0, 1], [0, 0]] = Inr one_sided" by code_simp
  show "solve remdups 5 one_sided 2 2 (0, 0) (0, 1) =
     Some (Inr (Solved [(0, 0), (0, 0), (0, 1)],
       [[\<lparr>wall_index = 3, display_index = 1280, visited = True, direction = 256\<rparr>,
         \<lparr>wall_index = 7, display_index = 2081, visited = False, direction = 0\<rparr>],
        [\<lparr>wall_index = 9, display_index = 0, visited = False, direction = 0\<rparr>,
         \<lparr>wall_index = 12, display_index = 0, visited = False, direction = 0\<rparr>]]))"
    by code_simp
  show "has_wall (wall_index (one_sided ! 0 ! 1)) wi_left"
    by (simp add: one_sided_def has_wall_def)
  show "\<not> no_wall_between (walls one_sided) (0, 0) (0, 1)"
    by (simp add: no_wall_between_def wall_of_def walls_def one_sided_def has_wall_def)
qed

end
